theory Spec2Isabelle
  imports Main "HOL-Library.Word"
begin

section \<open>Packing size-tagged PNG files into an icon container\<close>

text \<open>
  A shallow embedding of \<^verbatim>\<open>scripts/pngs_to_ico.py\<close>. Python integers are \<open>int\<close>, the
  lengths of lists and the pixel dimensions reported by the image library are \<open>nat\<close>,
  bytes are \<open>8 word\<close>, and a Python string is the list of its code points. The file
  system, the image library and the console are made explicit: what the script reads
  is an environment of answers, what it changes is a world that every function
  returns updated, and an exception that the script does not catch is the left
  summand of the result.
\<close>

subsection \<open>Strings\<close>

text \<open>
  \<open>ord\<close> is Python's \<^verbatim>\<open>ord\<close> on the characters that a HOL string literal can hold, and
  \<open>str\<close> writes a Python string as such a literal.
\<close>

type_synonym str = "nat list"

definition ord :: "char \<Rightarrow> nat" where
  "ord c = of_char c"

definition str :: "string \<Rightarrow> str" where
  "str s = map ord s"

subsection \<open>Paths\<close>

text \<open>
  A path is the list of its components, the file name last. \<open>stem\<close> follows
  pathlib: the name up to its last dot, unless that dot is the first or the last
  character.
\<close>

type_synonym path = "str list"

definition path_name :: "path \<Rightarrow> str" where
  "path_name p = (if p = [] then [] else last p)"

definition parent_name :: "path \<Rightarrow> str" where
  "parent_name p = path_name (butlast p)"

definition rfind_dot :: "str \<Rightarrow> nat option" where
  "rfind_dot nm =
     (if ord CHR ''.'' \<in> set nm
      then Some (length nm - 1 - length (takeWhile (\<lambda>c. c \<noteq> ord CHR ''.'') (rev nm)))
      else None)"

definition stem :: "path \<Rightarrow> str" where
  "stem p =
     (let nm = path_name p in
      case rfind_dot nm of
        None \<Rightarrow> nm
      | Some i \<Rightarrow> if 0 < i \<and> i < length nm - 1 then take i nm else nm)"

subsection \<open>Decimal digits\<close>

text \<open>
  On a string pattern the class \<^verbatim>\<open>\d\<close> holds every character that Unicode classes as a
  decimal digit, and \<^verbatim>\<open>int\<close> reads every such character as its digit value. These
  characters come in runs of ten, from the zero of a script to its nine. \<open>nd_zeros\<close>
  lists the zeros of Unicode 15.0, the database of Python 3.12; the database of
  Python 3.11 is Unicode 14.0, which has neither the run at \<open>0x11F50\<close> nor the one at
  \<open>0x1E4F0\<close>. \<open>decimal\<close> is the digit value of a character, if it has one.
\<close>

definition nd_zeros :: "nat list" where
  "nd_zeros =
     [0x0030, 0x0660, 0x06F0, 0x07C0, 0x0966, 0x09E6, 0x0A66, 0x0AE6, 0x0B66,
      0x0BE6, 0x0C66, 0x0CE6, 0x0D66, 0x0DE6, 0x0E50, 0x0ED0, 0x0F20, 0x1040,
      0x1090, 0x17E0, 0x1810, 0x1946, 0x19D0, 0x1A80, 0x1A90, 0x1B50, 0x1BB0,
      0x1C40, 0x1C50, 0xA620, 0xA8D0, 0xA900, 0xA9D0, 0xA9F0, 0xAA50, 0xABF0,
      0xFF10, 0x104A0, 0x10D30, 0x11066, 0x110F0, 0x11136, 0x111D0, 0x112F0, 0x11450,
      0x114D0, 0x11650, 0x116C0, 0x11730, 0x118E0, 0x11950, 0x11C50, 0x11D50, 0x11DA0,
      0x11F50, 0x16A60, 0x16AC0, 0x16B50, 0x1D7CE, 0x1D7D8, 0x1D7E2, 0x1D7EC, 0x1D7F6,
      0x1E140, 0x1E2F0, 0x1E4F0, 0x1E950, 0x1FBF0]"

definition decimal :: "nat \<Rightarrow> nat option" where
  "decimal c = map_option (\<lambda>z. c - z) (find (\<lambda>z. z \<le> c \<and> c < z + 10) nd_zeros)"

definition is_digit :: "nat \<Rightarrow> bool" where
  "is_digit c = (decimal c \<noteq> None)"

subsection \<open>The suffix pattern\<close>

text \<open>
  \<^verbatim>\<open>SIZE_RE = re.compile(r'^(.*?)(?:[_@\-]?)(\d+)$')\<close>, matched with \<^verbatim>\<open>match\<close>, as
  the backtracking matcher runs it. \<open>digits_end\<close> is the greedy \<open>(\d+)$\<close>: after a
  digit it first tries to take more digits and only then gives them back and tests
  \<open>$\<close>, which holds at the end of the string and before a line feed that ends it.
  \<open>tail_match\<close> puts the greedy optional separator in front of it. \<open>SIZE_RE_from\<close>
  is the lazy first group: it tries the rest of the pattern before it takes one more
  character, and the dot takes no line feed.
\<close>

definition is_sep :: "nat \<Rightarrow> bool" where
  "is_sep c = (c = ord CHR ''_'' \<or> c = ord CHR ''@'' \<or> c = ord CHR ''-'')"

definition at_end :: "str \<Rightarrow> bool" where
  "at_end s = (s = [] \<or> s = [ord (CHR 0x0A)])"

fun digits_end :: "str \<Rightarrow> str option" where
  "digits_end [] = None"
| "digits_end (c # r) =
     (if is_digit c
      then (case digits_end r of
              Some ds \<Rightarrow> Some (c # ds)
            | None \<Rightarrow> if at_end r then Some [c] else None)
      else None)"

fun tail_match :: "str \<Rightarrow> str option" where
  "tail_match [] = digits_end []"
| "tail_match (c # r) =
     (if is_sep c
      then (case digits_end r of
              Some ds \<Rightarrow> Some ds
            | None \<Rightarrow> digits_end (c # r))
      else digits_end (c # r))"

fun SIZE_RE_from :: "str \<Rightarrow> str \<Rightarrow> (str \<times> str) option" where
  "SIZE_RE_from g [] =
     (case tail_match [] of Some ds \<Rightarrow> Some (g, ds) | None \<Rightarrow> None)"
| "SIZE_RE_from g (c # r) =
     (case tail_match (c # r) of
        Some ds \<Rightarrow> Some (g, ds)
      | None \<Rightarrow> if c = ord (CHR 0x0A) then None else SIZE_RE_from (g @ [c]) r)"

definition SIZE_RE_match :: "str \<Rightarrow> (str \<times> str) option" where
  "SIZE_RE_match s = SIZE_RE_from [] s"

text \<open>
  \<^verbatim>\<open>int(m.group(2))\<close>. The second group holds a run of decimal digits and nothing else.
  On such a run \<open>int\<close> returns its decimal value, unless the run has more than 4300
  digits, the limit that the interpreter sets on the conversion; \<open>None\<close> is the
  \<open>ValueError\<close> that the script catches. \<open>py_int\<close> is \<open>int\<close> on these runs only: on a
  string that is no run of decimal digits it is \<open>None\<close> whatever \<open>int\<close> does there.
\<close>

definition digit_val :: "nat \<Rightarrow> int" where
  "digit_val c = (case decimal c of Some d \<Rightarrow> int d | None \<Rightarrow> 0)"

definition py_int :: "str \<Rightarrow> int option" where
  "py_int ds =
     (if ds \<noteq> [] \<and> list_all is_digit ds \<and> length ds \<le> 4300
      then Some (foldl (\<lambda>a c. 10 * a + digit_val c) 0 ds)
      else None)"

subsection \<open>Grouping\<close>

text \<open>
  \<^verbatim>\<open>groups\<close> is a \<open>defaultdict(list)\<close>, which keeps its keys in the order of their
  first insertion: an association list. \<open>groups_append\<close> is
  \<^verbatim>\<open>groups[folder_name].append((p, size))\<close>.
\<close>

type_synonym candidate = "path \<times> int"
type_synonym groups = "(str \<times> candidate list) list"

fun groups_append :: "groups \<Rightarrow> str \<Rightarrow> candidate \<Rightarrow> groups" where
  "groups_append [] k v = [(k, [v])]"
| "groups_append ((k', vs) # g) k v =
     (if k' = k then (k', vs @ [v]) # g else (k', vs) # groups_append g k v)"

definition folder_name :: "path \<Rightarrow> str" where
  "folder_name p = (if parent_name p = [] then str ''.'' else parent_name p)"

text \<open>
  The loop of \<^verbatim>\<open>group_pngs\<close> over \<^verbatim>\<open>sorted(dirpath.rglob('*.png'))\<close>; the sorted scan
  is the argument \<open>ps\<close>, and \<open>is_file\<close> holds the answers of the file system. The loop
  changes nothing but its own variable; that \<^verbatim>\<open>p.is_file()\<close> may raise instead of
  answering is met where \<open>main\<close> calls the function.
\<close>

fun group_loop :: "(path \<Rightarrow> bool) \<Rightarrow> path list \<Rightarrow> groups \<Rightarrow> groups" where
  "group_loop is_file [] groups = groups"
| "group_loop is_file (p # ps) groups =
     (if \<not> is_file p then group_loop is_file ps groups
      else case SIZE_RE_match (stem p) of
        None \<Rightarrow> group_loop is_file ps groups
      | Some (g1, g2) \<Rightarrow>
          (case py_int g2 of
             None \<Rightarrow> group_loop is_file ps groups
           | Some sz \<Rightarrow>
               group_loop is_file ps (groups_append groups (folder_name p) (p, sz))))"

definition group_pngs :: "(path \<Rightarrow> bool) \<Rightarrow> path list \<Rightarrow> groups" where
  "group_pngs is_file ps = group_loop is_file ps []"

subsection \<open>Packing integers\<close>

text \<open>
  \<^verbatim>\<open>struct.pack\<close> with a little-endian format: every field is written in its width, and
  a value outside the range of its field raises \<^verbatim>\<open>struct.error\<close>. The errors are the
  exceptions that leave the script uncaught.
\<close>

type_synonym byte = "8 word"

datatype error = StructError | OSError str | SystemExit str

fun le_bytes :: "nat \<Rightarrow> int \<Rightarrow> byte list" where
  "le_bytes 0 v = []"
| "le_bytes (Suc n) v = word_of_int v # le_bytes n (v div 256)"

definition pack_uint :: "nat \<Rightarrow> int \<Rightarrow> error + byte list" where
  "pack_uint n v =
     (if 0 \<le> v \<and> v < 256 ^ n then Inr (le_bytes n v) else Inl StructError)"

fun pack_fields :: "(nat \<times> int) list \<Rightarrow> error + byte list" where
  "pack_fields [] = Inr []"
| "pack_fields ((n, v) # fs) =
     (case pack_uint n v of
        Inl e \<Rightarrow> Inl e
      | Inr bs \<Rightarrow> (case pack_fields fs of Inl e \<Rightarrow> Inl e | Inr cs \<Rightarrow> Inr (bs @ cs)))"

definition pack_HHH :: "int \<Rightarrow> int \<Rightarrow> int \<Rightarrow> error + byte list" where
  "pack_HHH a b c = pack_fields [(2, a), (2, b), (2, c)]"

definition pack_BBBBHHII ::
  "int \<Rightarrow> int \<Rightarrow> int \<Rightarrow> int \<Rightarrow> int \<Rightarrow> int \<Rightarrow> int \<Rightarrow> int \<Rightarrow> error + byte list" where
  "pack_BBBBHHII a b c d e f g h =
     pack_fields [(1, a), (1, b), (1, c), (1, d), (2, e), (2, f), (4, g), (4, h)]"

subsection \<open>Building the container\<close>

text \<open>
  An entry is \<^verbatim>\<open>(size, data)\<close>. \<open>w_byte\<close> and \<open>h_byte\<close> are the two conditional
  expressions of the directory loop; \<open>dir_loop\<close> is that loop, with
  \<^verbatim>\<open>dir_entries\<close>, \<^verbatim>\<open>image_data\<close> and \<^verbatim>\<open>offset\<close> as its state. \<open>sorted\<close> with a key
  is a stable sort, as \<open>sort_key\<close> is.
\<close>

type_synonym entry = "int \<times> byte list"

definition w_byte :: "int \<Rightarrow> int" where
  "w_byte sz = (if sz \<ge> 256 then 0 else sz)"

definition h_byte :: "int \<Rightarrow> int" where
  "h_byte sz = (if sz \<ge> 256 then 0 else sz)"

fun dir_loop ::
  "entry list \<Rightarrow> byte list \<Rightarrow> byte list \<Rightarrow> int \<Rightarrow> error + (byte list \<times> byte list)" where
  "dir_loop [] dir_entries image_data offset = Inr (dir_entries, image_data)"
| "dir_loop ((sz, data) # es) dir_entries image_data offset =
     (let data_len = int (length data) in
      case pack_BBBBHHII (w_byte sz) (h_byte sz) 0 0 0 32 data_len offset of
        Inl e \<Rightarrow> Inl e
      | Inr r \<Rightarrow> dir_loop es (dir_entries @ r) (image_data @ data) (offset + data_len))"

definition sort_entries :: "entry list \<Rightarrow> entry list" where
  "sort_entries entries = sort_key fst entries"

text \<open>
  The three byte strings that the script then writes one after the other, from the
  entries as validation left them.
\<close>

definition build_ico :: "entry list \<Rightarrow> error + (byte list \<times> byte list \<times> byte list)" where
  "build_ico entries0 =
     (let entries = sort_entries entries0;
          count = int (length entries) in
      case pack_HHH 0 1 count of
        Inl e \<Rightarrow> Inl e
      | Inr header \<Rightarrow>
          (case dir_loop entries [] [] (6 + 16 * count) of
             Inl e \<Rightarrow> Inl e
           | Inr (dir_entries, image_data) \<Rightarrow> Inr (header, dir_entries, image_data)))"

definition ico_bytes :: "entry list \<Rightarrow> error + byte list" where
  "ico_bytes entries0 =
     (case build_ico entries0 of
        Inl e \<Rightarrow> Inl e
      | Inr (header, dir_entries, image_data) \<Rightarrow> Inr (header @ dir_entries @ image_data))"

subsection \<open>The file system, the image library and the console\<close>

text \<open>
  The environment holds what the script asks for: whether a path is a regular file,
  or the message of the error raised instead of that answer, what
  \<^verbatim>\<open>Image.open(p).size\<close> and \<^verbatim>\<open>p.read_bytes()\<close> give (\<open>Inl\<close> is the message of the
  exception raised), whether creating the output directory fails, whether asking for
  the existence of an output file fails, and whether writing an output file fails,
  with what the file holds afterwards if it holds anything new. The world holds what
  the script changes: the files of the output directory (\<open>None\<close> while that directory
  does not exist), the lines printed, and the sources handed to \<^verbatim>\<open>Image.open\<close>.
  The console is taken to accept every line.
\<close>

datatype diag =
    AlreadyExists str
  | NotSquare str nat nat
  | SizeMismatch str nat int
  | Unreadable path str
  | NoUsableEntries str
  | Generated str "int list"
  | WriteFailed str str
  | NoPngFound
  | Done

record env =
  is_file :: "path \<Rightarrow> bool"
  is_file_error :: "path \<Rightarrow> str option"
  image_size :: "path \<Rightarrow> str + (nat \<times> nat)"
  read_bytes :: "path \<Rightarrow> str + byte list"
  mkdir_error :: "str option"
  exists_error :: "str \<Rightarrow> str option"
  write_fault :: "str \<Rightarrow> (str \<times> byte list option) option"

record world =
  out_dir :: "(str \<rightharpoonup> byte list) option"
  console :: "diag list"
  opened :: "path list"

definition print :: "diag \<Rightarrow> world \<Rightarrow> world" where
  "print d w = w\<lparr>console := console w @ [d]\<rparr>"

text \<open>\<^verbatim>\<open>out_dir.mkdir(parents=True, exist_ok=True)\<close>: nothing to do for a directory that exists.\<close>

definition mkdir :: "env \<Rightarrow> world \<Rightarrow> error + world" where
  "mkdir ev w =
     (case out_dir w of
        Some fs \<Rightarrow> Inr w
      | None \<Rightarrow>
          (case mkdir_error ev of
             Some msg \<Rightarrow> Inl (OSError msg)
           | None \<Rightarrow> Inr (w\<lparr>out_dir := Some Map.empty\<rparr>)))"

text \<open>
  \<^verbatim>\<open>ico_path.exists()\<close>. pathlib answers \<open>False\<close> when the file system reports that the
  file is not there, and raises every other error of the file system, such as a name
  that is too long or a directory that may not be searched; the script does not catch
  it.
\<close>

definition ico_exists :: "env \<Rightarrow> world \<Rightarrow> str \<Rightarrow> error + bool" where
  "ico_exists ev w ico =
     (case exists_error ev ico of
        Some msg \<Rightarrow> Inl (OSError msg)
      | None \<Rightarrow> Inr (case out_dir w of None \<Rightarrow> False | Some fs \<Rightarrow> fs ico \<noteq> None))"

definition file_content :: "world \<Rightarrow> str \<Rightarrow> byte list option" where
  "file_content w ico = (case out_dir w of None \<Rightarrow> None | Some fs \<Rightarrow> fs ico)"

subsection \<open>Validation\<close>

text \<open>
  The body of the \<^verbatim>\<open>try\<close> statement for one candidate with a size that is not 0:
  the diagnostic printed when the candidate is rejected, or the entry appended.
\<close>

definition check_candidate :: "env \<Rightarrow> path \<Rightarrow> int \<Rightarrow> diag + entry" where
  "check_candidate ev p s =
     (case image_size ev p of
        Inl e \<Rightarrow> Inl (Unreadable p e)
      | Inr (w, h) \<Rightarrow>
          if w \<noteq> h then Inl (NotSquare (path_name p) w h)
          else if int w \<noteq> s then Inl (SizeMismatch (path_name p) w s)
          else (case read_bytes ev p of
                  Inl e \<Rightarrow> Inl (Unreadable p e)
                | Inr data \<Rightarrow> Inr (s, data)))"

fun validate :: "env \<Rightarrow> candidate list \<Rightarrow> entry list \<Rightarrow> world \<Rightarrow> entry list \<times> world" where
  "validate ev [] entries w = (entries, w)"
| "validate ev ((p, s) # items) entries w =
     (if s = 0 then validate ev items entries w
      else
        let w1 = w\<lparr>opened := opened w @ [p]\<rparr> in
        case check_candidate ev p s of
          Inl d \<Rightarrow> validate ev items entries (print d w1)
        | Inr e \<Rightarrow> validate ev items (entries @ [e]) w1)"

subsection \<open>Writing and the run\<close>

text \<open>
  The second \<^verbatim>\<open>try\<close> statement: the file is opened for writing and receives the three
  byte strings, or the exception is printed.
\<close>

definition write_ico ::
  "env \<Rightarrow> str \<Rightarrow> byte list \<Rightarrow> entry list \<Rightarrow> world \<Rightarrow> world" where
  "write_ico ev ico content entries w =
     (case out_dir w of
        None \<Rightarrow> print (WriteFailed ico (str ''No such file or directory'')) w
      | Some fs \<Rightarrow>
          (case write_fault ev ico of
             None \<Rightarrow>
               print (Generated ico (map fst entries)) (w\<lparr>out_dir := Some (fs(ico \<mapsto> content))\<rparr>)
           | Some (msg, None) \<Rightarrow> print (WriteFailed ico msg) w
           | Some (msg, Some partial) \<Rightarrow>
               print (WriteFailed ico msg) (w\<lparr>out_dir := Some (fs(ico \<mapsto> partial))\<rparr>)))"

text \<open>
  \<^verbatim>\<open>create_ico_for_group\<close>. The test \<^verbatim>\<open>ico_path.exists() and not overwrite\<close> asks the file
  system first, whatever \<^verbatim>\<open>overwrite\<close> is.
\<close>

definition create_ico_for_group ::
  "env \<Rightarrow> str \<Rightarrow> candidate list \<Rightarrow> bool \<Rightarrow> world \<Rightarrow> error + world" where
  "create_ico_for_group ev base items overwrite w0 =
     (case mkdir ev w0 of
        Inl e \<Rightarrow> Inl e
      | Inr w \<Rightarrow>
          let ico = base @ str ''.ico'' in
          case ico_exists ev w ico of
            Inl e \<Rightarrow> Inl e
          | Inr ex \<Rightarrow>
              if ex \<and> \<not> overwrite then Inr (print (AlreadyExists ico) w)
              else
                (case validate ev items [] w of
                   (entries, w') \<Rightarrow>
                     if entries = [] then Inr (print (NoUsableEntries base) w')
                     else
                       (case build_ico entries of
                          Inl e \<Rightarrow> Inl e
                        | Inr (header, dir_entries, image_data) \<Rightarrow>
                            Inr (write_ico ev ico (header @ dir_entries @ image_data)
                                   (sort_entries entries) w'))))"

fun run_groups :: "env \<Rightarrow> groups \<Rightarrow> bool \<Rightarrow> world \<Rightarrow> error + world" where
  "run_groups ev [] overwrite w = Inr w"
| "run_groups ev ((base, items) # gs) overwrite w =
     (case create_ico_for_group ev base items overwrite w of
        Inl e \<Rightarrow> Inl e
      | Inr w' \<Rightarrow> run_groups ev gs overwrite w')"



subsection \<open>Reading a container back\<close>

text \<open>
  The reader's side of the layout, for the round trip: the fields of the header and
  of the directory record number \<open>i\<close> as numbers, the payload that this record
  points to, and the pixel size that a width byte stands for (0 means 256).
\<close>

definition le_val :: "byte list \<Rightarrow> nat" where
  "le_val bs = foldr (\<lambda>b a. unat b + 256 * a) bs 0"

fun unpack_fields :: "nat list \<Rightarrow> byte list \<Rightarrow> nat list" where
  "unpack_fields [] bs = []"
| "unpack_fields (n # ns) bs = le_val (take n bs) # unpack_fields ns (drop n bs)"

definition slice :: "nat \<Rightarrow> nat \<Rightarrow> 'a list \<Rightarrow> 'a list" where
  "slice start len xs = take len (drop start xs)"

definition read_header :: "byte list \<Rightarrow> nat list" where
  "read_header bs = unpack_fields [2, 2, 2] (slice 0 6 bs)"

definition read_dir :: "byte list \<Rightarrow> nat \<Rightarrow> nat list" where
  "read_dir bs i = unpack_fields [1, 1, 1, 1, 2, 2, 4, 4] (slice (6 + 16 * i) 16 bs)"

definition read_payload :: "byte list \<Rightarrow> nat \<Rightarrow> byte list" where
  "read_payload bs i = slice (read_dir bs i ! 7) (read_dir bs i ! 6) bs"

definition icon_size :: "nat \<Rightarrow> nat" where
  "icon_size b = (if b = 0 then 256 else b)"

definition read_size :: "byte list \<Rightarrow> nat \<Rightarrow> nat" where
  "read_size bs i = icon_size (read_dir bs i ! 0)"

text \<open>
  The total payload length of a list of entries, the offset that the directory loop
  has reached before entry \<open>i\<close>, and the record that it packs for entry \<open>i\<close> when it
  started at offset \<open>off\<close>.
\<close>

definition lens :: "entry list \<Rightarrow> nat" where
  "lens es = sum_list (map (length \<circ> snd) es)"

definition payload_offset :: "entry list \<Rightarrow> nat \<Rightarrow> nat" where
  "payload_offset es i = 6 + 16 * length es + lens (take i es)"

definition dir_record :: "entry list \<Rightarrow> int \<Rightarrow> nat \<Rightarrow> error + byte list" where
  "dir_record es off i =
     pack_BBBBHHII (w_byte (fst (es ! i))) (h_byte (fst (es ! i))) 0 0 0 32
       (int (length (snd (es ! i)))) (off + int (lens (take i es)))"

subsection \<open>What the loops amount to\<close>

text \<open>
  The loops of the script, said without their state, for comparison with the
  functions above: the candidate that one scanned path gives, the candidates of one
  folder, and for a list of candidates the entries accepted, the diagnostics of the
  rejections and the sources that were opened.
\<close>

definition candidate_of :: "(path \<Rightarrow> bool) \<Rightarrow> path \<Rightarrow> candidate option" where
  "candidate_of isf p =
     (if \<not> isf p then None
      else case SIZE_RE_match (stem p) of
        None \<Rightarrow> None
      | Some (g1, g2) \<Rightarrow> map_option (\<lambda>sz. (p, sz)) (py_int g2))"

definition candidates_in :: "(path \<Rightarrow> bool) \<Rightarrow> path list \<Rightarrow> str \<Rightarrow> candidate list" where
  "candidates_in isf ps k =
     List.map_filter (candidate_of isf) (filter (\<lambda>p. folder_name p = k) ps)"

definition items_of :: "groups \<Rightarrow> str \<Rightarrow> candidate list" where
  "items_of g k = (case map_of g k of None \<Rightarrow> [] | Some vs \<Rightarrow> vs)"

definition passes :: "env \<Rightarrow> candidate \<Rightarrow> bool" where
  "passes ev c = (snd c \<noteq> 0 \<and> \<not> isl (check_candidate ev (fst c) (snd c)))"

definition accepted :: "env \<Rightarrow> candidate list \<Rightarrow> entry list" where
  "accepted ev items = map (\<lambda>c. projr (check_candidate ev (fst c) (snd c))) (filter (passes ev) items)"

definition rejections :: "env \<Rightarrow> candidate list \<Rightarrow> diag list" where
  "rejections ev items =
     map (\<lambda>c. projl (check_candidate ev (fst c) (snd c)))
       (filter (\<lambda>c. snd c \<noteq> 0 \<and> \<not> passes ev c) items)"

definition probed :: "candidate list \<Rightarrow> path list" where
  "probed items = map fst (filter (\<lambda>c. snd c \<noteq> 0) items)"

text \<open>The world after the validation loop has run over a list of candidates.\<close>

definition after_validation :: "env \<Rightarrow> candidate list \<Rightarrow> world \<Rightarrow> world" where
  "after_validation ev items w =
     w\<lparr>console := console w @ rejections ev items, opened := opened w @ probed items\<rparr>"

text \<open>
  The pattern in words: the stem without one final line feed, the digits that it ends
  in, and the size that a stem declares, if it declares one.
\<close>

definition chomp :: "str \<Rightarrow> str" where
  "chomp s = (if s \<noteq> [] \<and> last s = ord (CHR 0x0A) then butlast s else s)"

definition trailing_digits :: "str \<Rightarrow> str" where
  "trailing_digits t = rev (takeWhile is_digit (rev t))"

definition size_tag :: "str \<Rightarrow> int option" where
  "size_tag s =
     (if ord (CHR 0x0A) \<in> set (chomp s) then None else py_int (trailing_digits (chomp s)))"

subsection \<open>An example directory\<close>

text \<open>
  A folder \<open>icons\<close> with five size-tagged files: \<open>a_16.png\<close> is 16 by 16 pixels,
  \<open>a_32.png\<close> is 30 by 30, \<open>a_48.png\<close> is 48 by 40, \<open>a_64.png\<close> and \<open>a-64.png\<close> are both
  64 by 64; every other path cannot be opened as an image. The payloads are short
  stand-ins for the files' bytes. \<open>icon\<close> is the path of a file of that folder.
\<close>

definition icon :: "string \<Rightarrow> path" where
  "icon nm = [str ''icons'', str nm]"

definition example_env :: env where
  "example_env =
     \<lparr> is_file = (\<lambda>p. True),
       is_file_error = (\<lambda>p. None),
       image_size = (\<lambda>p.
         if p = icon ''a_16.png'' then Inr (16, 16)
         else if p = icon ''a_32.png'' then Inr (30, 30)
         else if p = icon ''a_48.png'' then Inr (48, 40)
         else if p = icon ''a_64.png'' then Inr (64, 64)
         else if p = icon ''a-64.png'' then Inr (64, 64)
         else Inl (str ''cannot identify image file'')),
       read_bytes = (\<lambda>p.
         if p = icon ''a_16.png'' then Inr [1]
         else if p = icon ''a_64.png'' then Inr [2, 2]
         else if p = icon ''a-64.png'' then Inr [3]
         else Inr []),
       mkdir_error = None,
       exists_error = (\<lambda>f. None),
       write_fault = (\<lambda>f. None) \<rparr>"

definition example_world :: world where
  "example_world = \<lparr> out_dir = None, console = [], opened = [] \<rparr>"

text \<open>
  The candidates of the folder in the order in which a caller might hand them over,
  and the container that the script writes for them.
\<close>

definition example_items :: "candidate list" where
  "example_items =
     [(icon ''a_64.png'', 64), (icon ''a_16.png'', 16),
      (icon ''a-64.png'', 64), (icon ''a_32.png'', 32)]"

definition example_container :: "byte list" where
  "example_container =
     [0, 0, 1, 0, 3, 0,
      16, 16, 0, 0, 0, 0, 32, 0, 1, 0, 0, 0, 54, 0, 0, 0,
      64, 64, 0, 0, 0, 0, 32, 0, 2, 0, 0, 0, 55, 0, 0, 0,
      64, 64, 0, 0, 0, 0, 32, 0, 1, 0, 0, 0, 57, 0, 0, 0,
      1, 2, 2, 3]"

section \<open>Properties of the layout\<close>

subsection \<open>Packing and reading fields\<close>

lemma le_val_Cons: "le_val (b # bs) = unat b + 256 * le_val bs"
  by (simp add: le_val_def)

lemma length_le_bytes: "length (le_bytes n v) = n"
  by (induction n arbitrary: v) auto

lemma unat_byte_of_int: "0 \<le> v \<Longrightarrow> unat (word_of_int v :: byte) = nat (v mod 256)"
  by (simp add: unat_eq_nat_uint uint_word_of_int)

lemma le_val_le_bytes: "0 \<le> v \<Longrightarrow> v < 256 ^ n \<Longrightarrow> le_val (le_bytes n v) = nat v"
proof (induction n arbitrary: v)
  case 0
  then show ?case by (simp add: le_val_def)
next
  case (Suc n)
  have d: "0 \<le> v div 256" "v div 256 < 256 ^ n"
    using Suc.prems by auto
  have "nat v = nat (v mod 256 + 256 * (v div 256))"
    by simp
  also have "\<dots> = nat (v mod 256) + nat (256 * (v div 256))"
    using d(1) by (intro nat_add_distrib) simp_all
  also have "\<dots> = nat (v mod 256) + 256 * nat (v div 256)"
    by (simp add: nat_mult_distrib)
  finally have "nat (v mod 256) + 256 * nat (v div 256) = nat v"
    by simp
  then show ?case
    using Suc.IH [OF d] Suc.prems(1) by (simp add: le_val_Cons unat_byte_of_int)
qed

lemma pack_uint_Inr: "pack_uint n v = Inr bs \<longleftrightarrow> 0 \<le> v \<and> v < 256 ^ n \<and> bs = le_bytes n v"
  by (auto simp: pack_uint_def)

lemma pack_fields_unpack:
  "pack_fields fs = Inr bs \<Longrightarrow>
     unpack_fields (map fst fs) bs = map (nat \<circ> snd) fs \<and> length bs = sum_list (map fst fs)"
proof (induction fs arbitrary: bs)
  case Nil
  then show ?case by simp
next
  case (Cons f fs)
  obtain n v where f: "f = (n, v)" by (cases f)
  from Cons.prems f obtain b c where
    b: "pack_uint n v = Inr b" and c: "pack_fields fs = Inr c" and bs: "bs = b @ c"
    by (auto split: sum.splits)
  from b have r: "0 \<le> v" "v < 256 ^ n" "b = le_bytes n v"
    by (simp_all add: pack_uint_Inr)
  show ?case
    using Cons.IH [OF c] r f bs by (simp add: length_le_bytes le_val_le_bytes)
qed


lemma pack_record_fields:
  assumes "pack_BBBBHHII a b c d e f g h = Inr r"
  shows "length r = 16"
    and "unpack_fields [1, 1, 1, 1, 2, 2, 4, 4] r = [nat a, nat b, nat c, nat d, nat e, nat f, nat g, nat h]"
  using pack_fields_unpack [OF assms [unfolded pack_BBBBHHII_def]]
  by (simp_all del: unpack_fields.simps)

lemma pack_record_ok:
  "pack_BBBBHHII a b 0 0 0 32 g h = Inr (le_bytes 1 a @ le_bytes 1 b @ le_bytes 1 0 @ le_bytes 1 0 @ le_bytes 2 0 @ le_bytes 2 32 @ le_bytes 4 g @ le_bytes 4 h)"
  if "0 \<le> a" "a < 256" "0 \<le> b" "b < 256" "0 \<le> g" "g < 2 ^ 32" "0 \<le> h" "h < 2 ^ 32"
  using that by (simp add: pack_BBBBHHII_def pack_uint_def)

lemma pack_record_range:
  assumes "pack_BBBBHHII a b c d e f g h = Inr r"
  shows "0 \<le> a \<and> a < 256 \<and> 0 \<le> b \<and> b < 256 \<and> 0 \<le> g \<and> g < 2 ^ 32 \<and> 0 \<le> h \<and> h < 2 ^ 32"
  using assms by (simp add: pack_BBBBHHII_def pack_uint_def split: if_splits)

lemma dir_loop_Inr:
  "dir_loop es d img off = Inr (d', img') \<Longrightarrow>
     \<exists>rs. d' = d @ concat rs \<and> length rs = length es \<and> img' = img @ concat (map snd es) \<and>
          (\<forall>i<length es. dir_record es off i = Inr (rs ! i))"
proof (induction es arbitrary: d img off)
  case Nil
  then show ?case by simp
next
  case (Cons e es)
  obtain sz data where e: "e = (sz, data)" by (cases e)
  from Cons.prems e obtain r where
    r: "pack_BBBBHHII (w_byte sz) (h_byte sz) 0 0 0 32 (int (length data)) off = Inr r" and
    l: "dir_loop es (d @ r) (img @ data) (off + int (length data)) = Inr (d', img')"
    by (auto simp: Let_def split: sum.splits)
  from Cons.IH [OF l] obtain rs where
    rs: "d' = (d @ r) @ concat rs" "length rs = length es"
      "img' = (img @ data) @ concat (map snd es)"
      "\<forall>i<length es. dir_record es (off + int (length data)) i = Inr (rs ! i)"
    by blast
  have "dir_record (e # es) off i = Inr ((r # rs) ! i)" if "i < length (e # es)" for i
  proof (cases i)
    case 0
    then show ?thesis using r e by (simp add: dir_record_def lens_def)
  next
    case (Suc j)
    then have "j < length es" using that by simp
    with rs(4) have "dir_record es (off + int (length data)) j = Inr (rs ! j)" by blast
    then show ?thesis using Suc e by (simp add: dir_record_def lens_def add.assoc)
  qed
  with rs(1-3) e show ?case
    by (intro exI [of _ "r # rs"]) simp
qed

lemma dir_loop_ok:
  "\<forall>i<length es. \<exists>r. dir_record es off i = Inr r \<Longrightarrow> \<exists>d' img'. dir_loop es d img off = Inr (d', img')"
proof (induction es arbitrary: d img off)
  case Nil
  then show ?case by simp
next
  case (Cons e es)
  obtain sz data where e: "e = (sz, data)" by (cases e)
  from Cons.prems [rule_format, of 0] e obtain r where
    r: "pack_BBBBHHII (w_byte sz) (h_byte sz) 0 0 0 32 (int (length data)) off = Inr r"
    by (auto simp: dir_record_def lens_def)
  have "\<exists>r. dir_record es (off + int (length data)) j = Inr r" if "j < length es" for j
    using Cons.prems [rule_format, of "Suc j"] that e
    by (simp add: dir_record_def lens_def add.assoc)
  then have "\<exists>d' img'. dir_loop es (d @ r) (img @ data) (off + int (length data)) = Inr (d', img')"
    by (intro Cons.IH) blast
  then show ?case using r e by (simp add: Let_def)
qed

lemma slice_concat_fixed:
  "\<forall>r\<in>set rs. length r = k \<Longrightarrow> i < length rs \<Longrightarrow> slice (k * i) k (concat rs @ t) = rs ! i"
proof (induction rs arbitrary: i)
  case Nil
  then show ?case by simp
next
  case (Cons r rs)
  show ?case
  proof (cases i)
    case 0
    then show ?thesis using Cons.prems by (simp add: slice_def)
  next
    case (Suc j)
    then have "slice (k * j) k (concat rs @ t) = rs ! j"
      using Cons.prems by (intro Cons.IH) simp_all
    then show ?thesis using Suc Cons.prems by (simp add: slice_def)
  qed
qed

lemma slice_payload:
  "i < length es \<Longrightarrow>
     slice (lens (take i es)) (length (snd (es ! i))) (concat (map snd es)) = snd (es ! i)"
proof (induction es arbitrary: i)
  case Nil
  then show ?case by simp
next
  case (Cons e es)
  show ?case
  proof (cases i)
    case 0
    then show ?thesis by (simp add: slice_def lens_def)
  next
    case (Suc j)
    then have "slice (lens (take j es)) (length (snd (es ! j))) (concat (map snd es)) = snd (es ! j)"
      using Cons.prems by (intro Cons.IH) simp
    then show ?thesis using Suc by (simp add: slice_def lens_def)
  qed
qed


lemma length_concat_fixed: "\<forall>r\<in>set rs. length r = k \<Longrightarrow> sum_list (map length rs) = k * length rs"
  by (induction rs) auto

lemma w_byte_range: "0 < sz \<Longrightarrow> 0 \<le> w_byte sz \<and> w_byte sz < 256 \<and> 0 \<le> h_byte sz \<and> h_byte sz < 256"
  by (simp add: w_byte_def h_byte_def)

lemma pack_HHH_ok:
  "0 \<le> c \<Longrightarrow> c < 65536 \<Longrightarrow> pack_HHH 0 1 c = Inr (le_bytes 2 0 @ le_bytes 2 1 @ le_bytes 2 c)"
  by (simp add: pack_HHH_def pack_uint_def)

lemma pack_HHH_fields:
  assumes "pack_HHH a b c = Inr r"
  shows "length r = 6" and "unpack_fields [2, 2, 2] r = [nat a, nat b, nat c]"
  using pack_fields_unpack [OF assms [unfolded pack_HHH_def]]
  by (simp_all del: unpack_fields.simps)

lemma build_ico_Inr:
  assumes b: "build_ico entries0 = Inr (header, d, img)"
  defines "es \<equiv> sort_entries entries0"
  shows "\<exists>rs. d = concat rs \<and> length rs = length es \<and> img = concat (map snd es) \<and>
           pack_HHH 0 1 (int (length es)) = Inr header \<and>
           (\<forall>i<length es. dir_record es (6 + 16 * int (length es)) i = Inr (rs ! i))"
proof -
  from b have h: "pack_HHH 0 1 (int (length es)) = Inr header"
    and l: "dir_loop es [] [] (6 + 16 * int (length es)) = Inr (d, img)"
    by (auto simp: build_ico_def es_def Let_def split: sum.splits)
  from dir_loop_Inr [OF l] h show ?thesis by auto
qed

lemma container_read_back:
  assumes h: "pack_HHH 0 1 (int (length es)) = Inr header"
    and rs: "length rs = length es"
      "\<forall>i<length es. dir_record es (6 + 16 * int (length es)) i = Inr (rs ! i)"
    and bs: "bs = header @ concat rs @ concat (map snd es)"
  shows "read_header bs = [0, 1, length es]"
    and "length bs = 6 + 16 * length es + lens es"
    and "drop (6 + 16 * length es) bs = concat (map snd es)"
    and "i < length es \<Longrightarrow>
           read_dir bs i = [nat (w_byte (fst (es ! i))), nat (h_byte (fst (es ! i))), 0, 0, 0, 32,
                            length (snd (es ! i)), payload_offset es i]"
    and "i < length es \<Longrightarrow> read_payload bs i = snd (es ! i)"
proof -
  have lh: "length header = 6" by (rule pack_HHH_fields(1) [OF h])
  have l16: "\<forall>r\<in>set rs. length r = 16"
  proof
    fix r assume "r \<in> set rs"
    then obtain i where "i < length rs" "r = rs ! i" by (auto simp: in_set_conv_nth)
    with rs have "dir_record es (6 + 16 * int (length es)) i = Inr r" by simp
    then show "length r = 16" unfolding dir_record_def by (rule pack_record_fields(1))
  qed
  have ld: "sum_list (map length rs) = 16 * length es"
    using length_concat_fixed [OF l16] by (simp only: rs(1))
  have ld': "length (concat rs) = 16 * length es"
    by (simp add: length_concat ld)
  show "read_header bs = [0, 1, length es]"
    using pack_HHH_fields(2) [OF h] lh by (simp add: read_header_def slice_def bs del: unpack_fields.simps)
  show "length bs = 6 + 16 * length es + lens es"
    by (simp add: bs lh ld lens_def length_concat comp_def)
  show "drop (6 + 16 * length es) bs = concat (map snd es)"
    by (simp add: bs lh ld ld')
  have dir: "read_dir bs i = [nat (w_byte (fst (es ! i))), nat (h_byte (fst (es ! i))), 0, 0, 0, 32,
                            length (snd (es ! i)), payload_offset es i]" if i: "i < length es" for i
  proof -
    have "slice (6 + 16 * i) 16 bs = slice (16 * i) 16 (concat rs @ concat (map snd es))"
      by (simp add: slice_def bs lh)
    also have "\<dots> = rs ! i"
      using l16 i rs(1) by (intro slice_concat_fixed) simp_all
    finally have s: "slice (6 + 16 * i) 16 bs = rs ! i" .
    from rs(2) i have "dir_record es (6 + 16 * int (length es)) i = Inr (rs ! i)" by blast
    from pack_record_fields(2) [OF this [unfolded dir_record_def]]
    show ?thesis
      by (simp add: read_dir_def s payload_offset_def nat_add_distrib nat_mult_distrib del: unpack_fields.simps)
  qed
  then show "i < length es \<Longrightarrow>
           read_dir bs i = [nat (w_byte (fst (es ! i))), nat (h_byte (fst (es ! i))), 0, 0, 0, 32,
                            length (snd (es ! i)), payload_offset es i]" .
  show "read_payload bs i = snd (es ! i)" if i: "i < length es"
  proof -
    have "slice (payload_offset es i) (length (snd (es ! i))) bs =
          slice (lens (take i es)) (length (snd (es ! i))) (concat (map snd es))"
      by (simp add: slice_def bs lh ld ld' payload_offset_def add.commute flip: drop_drop)
    then show ?thesis
      using slice_payload [OF i] by (simp add: read_payload_def dir [OF i])
  qed
qed

subsection \<open>The container and its round trip\<close>

lemma icon_size_w_byte: "0 < sz \<Longrightarrow> int (icon_size (nat (w_byte sz))) = min sz 256"
  by (simp add: icon_size_def w_byte_def)

text \<open>
  C1, as amended. For every non-empty list of validated entries (sizes positive) with
  at most 65535 entries whose payload lengths and payload offsets fit in 32 bits, the
  container is produced, and with the entries in sorted order it is: a 6-byte header
  that reads 0, 1, entry count; one 16-byte directory record per entry that reads
  width byte, height byte, 0, 0, 0, 32, the length of the entry's payload, and 6 plus
  16 times the entry count plus the lengths of the payloads before it; then the
  payloads themselves, unchanged and in the same order. Reading it back gives the
  entry count, every payload, and for every entry the smaller of its size and 256:
  the size itself for sizes up to 256, and 256 for every larger size.
\<close>

theorem container_layout_roundtrip:
  assumes ne: "entries0 \<noteq> []"
    and pos: "\<forall>e\<in>set entries0. 0 < fst e"
    and cnt: "length entries0 \<le> 65535"
    and fit: "\<forall>i<length entries0. length (snd (sort_entries entries0 ! i)) < 2 ^ 32 \<and>
                payload_offset (sort_entries entries0) i < 2 ^ 32"
  shows "\<exists>bs. ico_bytes entries0 = Inr bs \<and>
           (let es = sort_entries entries0; n = length es in
              n = length entries0 \<and>
              length bs = 6 + 16 * n + lens es \<and>
              read_header bs = [0, 1, n] \<and>
              (\<forall>i<n. read_dir bs i =
                   [nat (w_byte (fst (es ! i))), nat (h_byte (fst (es ! i))), 0, 0, 0, 32,
                    length (snd (es ! i)), payload_offset es i]) \<and>
              drop (6 + 16 * n) bs = concat (map snd es) \<and>
              (\<forall>i<n. read_payload bs i = snd (es ! i)) \<and>
              (\<forall>i<n. int (read_size bs i) = min (fst (es ! i)) 256))"
proof -
  define es where "es = sort_entries entries0"
  have n: "length es = length entries0"
    by (simp add: es_def sort_entries_def)
  have pos': "0 < fst (es ! i)" if "i < length es" for i
  proof -
    have "es ! i \<in> set entries0"
      using that nth_mem [of i es] by (simp add: es_def sort_entries_def)
    with pos show ?thesis by blast
  qed
  let ?off = "6 + 16 * int (length es)"
  have rec_ok: "\<exists>r. dir_record es ?off i = Inr r" if i: "i < length es" for i
  proof -
    from fit i n have f: "length (snd (es ! i)) < 2 ^ 32" "payload_offset es i < 2 ^ 32"
      by (simp_all add: es_def)
    have o: "?off + int (lens (take i es)) = int (payload_offset es i)"
      by (simp add: payload_offset_def)
    have g: "int (length (snd (es ! i))) < 2 ^ 32" "int (payload_offset es i) < 2 ^ 32"
      using f [folded of_nat_less_iff [where ?'a = int]] by simp_all
    note r = w_byte_range [OF pos' [OF i]]
    show ?thesis
      unfolding dir_record_def o
      by (rule exI, rule pack_record_ok) (use g r in simp_all)
  qed
  then obtain d img where l: "dir_loop es [] [] ?off = Inr (d, img)"
    using dir_loop_ok [of es ?off "[]" "[]"] by blast
  define header where "header = le_bytes 2 0 @ le_bytes 2 1 @ le_bytes 2 (int (length es))"
  have h: "pack_HHH 0 1 (int (length es)) = Inr header"
    unfolding header_def using cnt n by (intro pack_HHH_ok) simp_all
  define bs where "bs = header @ d @ img"
  have b: "ico_bytes entries0 = Inr bs"
    using h l by (simp add: ico_bytes_def build_ico_def es_def [symmetric] bs_def)
  from dir_loop_Inr [OF l] obtain rs where
    rs: "d = concat rs" "length rs = length es" "img = concat (map snd es)"
      "\<forall>i<length es. dir_record es ?off i = Inr (rs ! i)"
    by auto
  have bs': "bs = header @ concat rs @ concat (map snd es)"
    by (simp add: bs_def rs)
  note rb = container_read_back [OF h rs(2) rs(4) bs']
  have sz: "int (read_size bs i) = min (fst (es ! i)) 256" if i: "i < length es" for i
    using rb(4) [OF i] icon_size_w_byte [OF pos' [OF i]] by (simp add: read_size_def)
  show ?thesis
    using b n rb(1-3) rb(4) rb(5) sz
    by (intro exI [of _ bs]) (simp add: es_def [symmetric] Let_def)
qed


text \<open>Unfolding the packers on numerals, for the concrete containers below.\<close>

lemma le_bytes_numeral:
  "le_bytes (numeral k) v = word_of_int v # le_bytes (pred_numeral k) (v div 256)"
  by (simp add: numeral_eq_Suc)

lemmas ico_eval = le_bytes_numeral ico_bytes_def build_ico_def sort_entries_def pack_HHH_def pack_BBBBHHII_def
  pack_uint_def w_byte_def h_byte_def
lemmas read_eval = read_size_def read_dir_def read_header_def read_payload_def slice_def
  icon_size_def le_val_def

text \<open>
  C1, witness: three entries given in the order 32, 16, 256 with payloads of 3, 2 and 1
  bytes; the container has 60 bytes and lists the sizes 16, 32 and 256.
\<close>

theorem container_layout_roundtrip_witness:
  "([(32, [1, 2, 3]), (16, [9, 9]), (256, [7])] :: entry list) \<noteq> [] \<and>
   (\<exists>bs. ico_bytes [(32, [1, 2, 3]), (16, [9, 9]), (256, [7])] = Inr bs \<and>
      length bs = 60 \<and> read_header bs = [0, 1, 3] \<and>
      read_dir bs 0 = [16, 16, 0, 0, 0, 32, 2, 54] \<and>
      read_dir bs 2 = [0, 0, 0, 0, 0, 32, 1, 59] \<and>
      read_payload bs 1 = [1, 2, 3] \<and> read_size bs 2 = 256)"
proof -
  let ?es = "[(32, [1, 2, 3]), (16, [9, 9]), (256, [7 :: byte])] :: entry list"
  have s: "sort_entries ?es = [(16, [9, 9]), (32, [1, 2, 3]), (256, [7])]"
    by (simp add: sort_entries_def)
  have 1: "?es \<noteq> []" by simp
  have 2: "\<forall>e\<in>set ?es. 0 < fst e" by simp
  have 3: "length ?es \<le> 65535" by simp
  have 4: "\<forall>i<length ?es. length (snd (sort_entries ?es ! i)) < 2 ^ 32 \<and>
                payload_offset (sort_entries ?es) i < 2 ^ 32"
    unfolding s by (simp add: payload_offset_def lens_def less_Suc_eq numeral_3_eq_3 all_conj_distrib)
  from container_layout_roundtrip [OF 1 2 3 4] obtain bs where
    bs: "ico_bytes ?es = Inr bs" and
    r: "let es = sort_entries ?es; n = length es in
              n = length ?es \<and>
              length bs = 6 + 16 * n + lens es \<and>
              read_header bs = [0, 1, n] \<and>
              (\<forall>i<n. read_dir bs i =
                   [nat (w_byte (fst (es ! i))), nat (h_byte (fst (es ! i))), 0, 0, 0, 32,
                    length (snd (es ! i)), payload_offset es i]) \<and>
              drop (6 + 16 * n) bs = concat (map snd es) \<and>
              (\<forall>i<n. read_payload bs i = snd (es ! i)) \<and>
              (\<forall>i<n. int (read_size bs i) = min (fst (es ! i)) 256)"
    by blast
  from r have "length bs = 60" "read_header bs = [0, 1, 3]"
    "read_dir bs 0 = [16, 16, 0, 0, 0, 32, 2, 54]"
    "read_dir bs 2 = [0, 0, 0, 0, 0, 32, 1, 59]"
    "read_payload bs 1 = [1, 2, 3]" "int (read_size bs 2) = 256"
    unfolding s Let_def by (simp_all add: lens_def payload_offset_def w_byte_def h_byte_def)
  with bs show ?thesis by auto
qed

text \<open>
  C1, counterexample to the claim as stated: one entry of size 512 with a payload of
  four bytes. The container is produced, its width byte is 0, and reading it back
  gives the size 256, not 512.
\<close>

theorem container_size_roundtrip_counterexample:
  "ico_bytes [(512, [137, 80, 78, 71])] =
     Inr [0, 0, 1, 0, 1, 0, 0, 0, 0, 0, 0, 0, 32, 0, 4, 0, 0, 0, 22, 0, 0, 0, 137, 80, 78, 71] \<and>
   read_size [0, 0, 1, 0, 1, 0, 0, 0, 0, 0, 0, 0, 32, 0, 4, 0, 0, 0, 22, 0, 0, 0, 137, 80, 78, 71] 0 = 256 \<and>
   read_size [0, 0, 1, 0, 1, 0, 0, 0, 0, 0, 0, 0, 32, 0, 4, 0, 0, 0, 22, 0, 0, 0, 137, 80, 78, 71] 0 \<noteq> 512"
  by (simp add: ico_eval read_eval)

subsection \<open>Validation\<close>

lemma validate_eq:
  "validate ev items entries w =
     (entries @ accepted ev items,
      w\<lparr>console := console w @ rejections ev items, opened := opened w @ probed items\<rparr>)"
proof (induction items arbitrary: entries w)
  case Nil
  then show ?case by (simp add: accepted_def rejections_def probed_def)
next
  case (Cons c items)
  obtain p s where c: "c = (p, s)" by (cases c)
  show ?case
  proof (cases "s = 0")
    case True
    then show ?thesis
      using c by (simp add: Cons.IH accepted_def rejections_def probed_def passes_def)
  next
    case False
    show ?thesis
    proof (cases "check_candidate ev p s")
      case (Inl d)
      then show ?thesis
        using c False
        by (simp add: Cons.IH accepted_def rejections_def probed_def passes_def print_def)
    next
      case (Inr e)
      then show ?thesis
        using c False
        by (simp add: Cons.IH accepted_def rejections_def probed_def passes_def)
    qed
  qed
qed

lemma check_candidate_Inr:
  "check_candidate ev p s = Inr e \<longleftrightarrow>
     (\<exists>w data. image_size ev p = Inr (w, w) \<and> int w = s \<and> read_bytes ev p = Inr data \<and> e = (s, data))"
  by (auto simp: check_candidate_def split: sum.splits prod.splits if_splits)

lemma accepted_pos: "e \<in> set (accepted ev items) \<Longrightarrow> 0 < fst e"
proof -
  assume "e \<in> set (accepted ev items)"
  then obtain c where c: "passes ev c" "e = projr (check_candidate ev (fst c) (snd c))"
    by (auto simp: accepted_def)
  then obtain e' where e': "check_candidate ev (fst c) (snd c) = Inr e'" "snd c \<noteq> 0"
    by (cases "check_candidate ev (fst c) (snd c)") (auto simp: passes_def)
  then obtain w where w: "int w = snd c" "fst e' = snd c"
    by (auto simp: check_candidate_Inr)
  then have "0 < snd c" using e'(2) by linarith
  with c e' w show ?thesis by simp
qed




subsection \<open>The size bytes\<close>

text \<open>
  C4, counterexample to the claim as stated: 512 is positive, at most 65535 and not
  256, and the width and height bytes written for it are 0, not 512; read as the
  claim reads the byte 0, they stand for 256.
\<close>

theorem size_byte_counterexample:
  "w_byte 512 = 0 \<and> h_byte 512 = 0 \<and> w_byte 512 \<noteq> 512 \<and>
   pack_BBBBHHII (w_byte 512) (h_byte 512) 0 0 0 32 4 22 =
     Inr [0, 0, 0, 0, 0, 0, 32, 0, 4, 0, 0, 0, 22, 0, 0, 0] \<and>
   icon_size (nat (w_byte 512)) = 256"
  by (simp add: ico_eval icon_size_def)

text \<open>
  C4, as amended. For every validated entry (its size is positive) the width byte and
  the height byte of its directory record are equal; they equal the entry's size when
  the size is below 256 and are 0 when the size is 256 or more. With the byte 0 read
  as 256 the record therefore states the smaller of the size and 256, which is the
  entry's size exactly for the sizes up to 256.
\<close>

theorem size_byte_written:
  assumes "0 < sz"
    and "pack_BBBBHHII (w_byte sz) (h_byte sz) 0 0 0 32 g h = Inr r"
  shows "(let fs = unpack_fields [1, 1, 1, 1, 2, 2, 4, 4] r in
           fs ! 1 = fs ! 0 \<and>
           (sz < 256 \<longrightarrow> int (fs ! 0) = sz) \<and>
           (256 \<le> sz \<longrightarrow> fs ! 0 = 0) \<and>
           int (icon_size (fs ! 0)) = min sz 256 \<and>
           (int (icon_size (fs ! 0)) = sz \<longleftrightarrow> sz \<le> 256))"
  using assms(1) unfolding pack_record_fields(2) [OF assms(2)]
  by (simp add: w_byte_def h_byte_def icon_size_def)

text \<open>C4, witness: the record of an entry of size 48 with a payload of 4 bytes at offset 22.\<close>

theorem size_byte_written_witness:
  "(0 :: int) < 48 \<and>
   pack_BBBBHHII (w_byte 48) (h_byte 48) 0 0 0 32 4 22 =
     Inr [48, 48, 0, 0, 0, 0, 32, 0, 4, 0, 0, 0, 22, 0, 0, 0] \<and>
   unpack_fields [1, 1, 1, 1, 2, 2, 4, 4] [48, 48, 0, 0, 0, 0, 32, 0, 4, 0, 0, 0, 22, 0, 0, 0] ! 0 = 48 \<and>
   icon_size 48 = 48"
proof -
  have p: "pack_BBBBHHII (w_byte 48) (h_byte 48) 0 0 0 32 4 22 =
     Inr [48, 48, 0, 0, 0, 0, 32, 0, 4, 0, 0, 0, 22, 0, 0, 0]"
    by (simp add: ico_eval)
  have "(0 :: int) < 48" by simp
  from size_byte_written [OF this p] p show ?thesis
    by (simp add: Let_def icon_size_def le_val_def)
qed

subsection \<open>One group\<close>


lemma mkdir_ok:
  "out_dir w0 \<noteq> None \<or> mkdir_error ev = None \<Longrightarrow> \<exists>w1. mkdir ev w0 = Inr w1"
  by (auto simp: mkdir_def split: option.splits)


lemma ico_exists_Inr:
  "ico_exists ev w ico = Inr ex \<longleftrightarrow>
     exists_error ev ico = None \<and> (ex \<longleftrightarrow> file_content w ico \<noteq> None)"
  by (auto simp: ico_exists_def file_content_def split: option.splits)


text \<open>
  An error of the file system at the existence test leaves the synthesizer as an
  exception, and with it the run.
\<close>

lemma exists_error_raised:
  assumes "mkdir ev w0 = Inr w1" and "exists_error ev (base @ str ''.ico'') = Some msg"
  shows "create_ico_for_group ev base items overwrite w0 = Inl (OSError msg)"
    and "run_groups ev ((base, items) # gs) overwrite w0 = Inl (OSError msg)"
  using assms by (simp_all add: create_ico_for_group_def ico_exists_def)

lemma create_ico_for_group_reached:
  assumes "mkdir ev w0 = Inr w1"
    and "ico_exists ev w1 (base @ str ''.ico'') = Inr ex"
    and "\<not> ex \<or> overwrite"
  shows "create_ico_for_group ev base items overwrite w0 =
     (if accepted ev items = []
      then Inr (print (NoUsableEntries base) (after_validation ev items w1))
      else
        (case build_ico (accepted ev items) of
           Inl e \<Rightarrow> Inl e
         | Inr (header, dir_entries, image_data) \<Rightarrow>
             Inr (write_ico ev (base @ str ''.ico'') (header @ dir_entries @ image_data)
                    (sort_entries (accepted ev items)) (after_validation ev items w1))))"
proof -
  from assms(3) have ne: "(ex \<and> \<not> overwrite) = False"
    by blast
  show ?thesis
    unfolding create_ico_for_group_def after_validation_def assms(1) Let_def validate_eq
    by (simp only: assms(2) ne sum.case if_False prod.case append_Nil)
qed

lemma print_simps:
  "console (print d w) = console w @ [d]" "opened (print d w) = opened w"
  "out_dir (print d w) = out_dir w" "file_content (print d w) f = file_content w f"
  by (simp_all add: print_def file_content_def)






lemmas example_eval = example_env_def example_world_def accepted_def rejections_def probed_def
  passes_def check_candidate_def path_name_def ico_exists_def file_content_def mkdir_def
  icon_def str_def ord_def




subsection \<open>The container that a call writes\<close>

lemma write_ico_generated:
  assumes "last (console (write_ico ev ico content es w)) = Generated ico' szs"
  shows "ico' = ico \<and> szs = map fst es \<and> file_content (write_ico ev ico content es w) ico = Some content"
  using assms
  by (auto simp: write_ico_def print_def file_content_def split: option.splits prod.splits)

lemma generated_container:
  assumes c: "create_ico_for_group ev base items overwrite w0 = Inr w'"
    and g: "last (console w') = Generated ico szs"
  shows "ico = base @ str ''.ico'' \<and> accepted ev items \<noteq> [] \<and>
         szs = map fst (sort_entries (accepted ev items)) \<and>
         (\<exists>bs. ico_bytes (accepted ev items) = Inr bs \<and> file_content w' ico = Some bs)"
proof -
  from c obtain w1 where m: "mkdir ev w0 = Inr w1"
    by (auto simp: create_ico_for_group_def split: sum.splits)
  obtain ex where e: "ico_exists ev w1 (base @ str ''.ico'') = Inr ex"
  proof (cases "ico_exists ev w1 (base @ str ''.ico'')")
    case (Inl x)
    with c m show ?thesis by (simp add: create_ico_for_group_def)
  next
    case (Inr ex)
    then show ?thesis by (rule that)
  qed
  have n: "\<not> ex \<or> overwrite"
  proof (rule ccontr)
    assume "\<not> ?thesis"
    with c m e have "w' = print (AlreadyExists (base @ str ''.ico'')) w1"
      by (simp add: create_ico_for_group_def)
    with g show False by (simp add: print_simps)
  qed
  note r = create_ico_for_group_reached [OF m e n, of items]
  have a: "accepted ev items \<noteq> []"
  proof
    assume "accepted ev items = []"
    with c r have "w' = print (NoUsableEntries base) (after_validation ev items w1)"
      by simp
    with g show False by (simp add: print_simps)
  qed
  with c r obtain header d img where
    b: "build_ico (accepted ev items) = Inr (header, d, img)" and
    w: "w' = write_ico ev (base @ str ''.ico'') (header @ d @ img) (sort_entries (accepted ev items))
              (after_validation ev items w1)"
    by (auto split: sum.splits)
  from b have "ico_bytes (accepted ev items) = Inr (header @ d @ img)"
    by (simp add: ico_bytes_def)
  with write_ico_generated [OF g [unfolded w]] a w show ?thesis
    by simp
qed

lemma ico_bytes_read_back:
  assumes b: "ico_bytes entries0 = Inr bs"
  defines "es \<equiv> sort_entries entries0"
  shows "read_header bs = [0, 1, length es]"
    and "i < length es \<Longrightarrow>
           read_dir bs i = [nat (w_byte (fst (es ! i))), nat (h_byte (fst (es ! i))), 0, 0, 0, 32,
                            length (snd (es ! i)), payload_offset es i]"
    and "i < length es \<Longrightarrow> read_payload bs i = snd (es ! i)"
proof -
  from b obtain header d img where
    bi: "build_ico entries0 = Inr (header, d, img)" and bs: "bs = header @ d @ img"
    by (auto simp: ico_bytes_def split: sum.splits)
  from build_ico_Inr [OF bi] obtain rs where
    rs: "d = concat rs" "length rs = length es" "img = concat (map snd es)"
      "pack_HHH 0 1 (int (length es)) = Inr header"
      "\<forall>i<length es. dir_record es (6 + 16 * int (length es)) i = Inr (rs ! i)"
    unfolding es_def by blast
  have bs': "bs = header @ concat rs @ concat (map snd es)"
    by (simp add: bs rs)
  note rb = container_read_back [OF rs(4) rs(2) rs(5) bs']
  show "read_header bs = [0, 1, length es]" by (rule rb(1))
  show "i < length es \<Longrightarrow>
           read_dir bs i = [nat (w_byte (fst (es ! i))), nat (h_byte (fst (es ! i))), 0, 0, 0, 32,
                            length (snd (es ! i)), payload_offset es i]" by (rule rb(4))
  show "i < length es \<Longrightarrow> read_payload bs i = snd (es ! i)" by (rule rb(5))
qed

lemma sorted_accepted_pos:
  "i < length (sort_entries (accepted ev items)) \<Longrightarrow> 0 < fst (sort_entries (accepted ev items) ! i)"
proof -
  assume "i < length (sort_entries (accepted ev items))"
  then have "sort_entries (accepted ev items) ! i \<in> set (sort_entries (accepted ev items))"
    by (rule nth_mem)
  then have "sort_entries (accepted ev items) ! i \<in> set (accepted ev items)"
    by (simp add: sort_entries_def)
  then show ?thesis by (rule accepted_pos)
qed

text \<open>
  C3. In every container that a call writes, the sizes that the directory records state
  are non-decreasing in directory order. The records follow the surviving entries
  sorted by size; the sort is stable, so the entries of any one size stand in the order
  in which validation produced them.
\<close>

theorem directory_sizes_sorted:
  assumes "create_ico_for_group ev base items overwrite w0 = Inr w'"
    and "last (console w') = Generated ico szs"
  shows "\<exists>bs. file_content w' ico = Some bs \<and>
           (let es = sort_entries (accepted ev items); n = length es in
              read_header bs = [0, 1, n] \<and>
              sorted (map (read_size bs) [0..<n]) \<and>
              (\<forall>i<n. int (read_size bs i) = min (fst (es ! i)) 256) \<and>
              sorted (map fst es) \<and> szs = map fst es \<and>
              (\<forall>k. filter (\<lambda>e. fst e = k) es = filter (\<lambda>e. fst e = k) (accepted ev items)))"
proof -
  define es where "es = sort_entries (accepted ev items)"
  from generated_container [OF assms] obtain bs where
    bs: "ico_bytes (accepted ev items) = Inr bs" "file_content w' ico = Some bs"
    and szs: "szs = map fst es"
    unfolding es_def by blast
  note rb = ico_bytes_read_back [OF bs(1), folded es_def]
  have sz: "int (read_size bs i) = min (fst (es ! i)) 256" if i: "i < length es" for i
    using rb(2) [OF i] icon_size_w_byte [OF sorted_accepted_pos [of i ev items]] i
    by (simp add: read_size_def es_def)
  have s: "sorted (map fst es)"
    by (simp add: es_def sort_entries_def)
  have "read_size bs i \<le> read_size bs j" if "i \<le> j" "j < length es" for i j
  proof -
    from that have "fst (es ! i) \<le> fst (es ! j)"
      using sorted_nth_mono [OF s, of i j] by simp
    then have "int (read_size bs i) \<le> int (read_size bs j)"
      using sz [of i] sz [of j] that by simp
    then show ?thesis by simp
  qed
  then have "sorted (map (read_size bs) [0..<length es])"
    by (simp add: sorted_iff_nth_mono)
  moreover have "filter (\<lambda>e. fst e = k) es = filter (\<lambda>e. fst e = k) (accepted ev items)" for k
    unfolding es_def sort_entries_def by (rule sort_key_stable)
  ultimately show ?thesis
    using bs(2) rb(1) sz s szs
    by (intro exI [of _ bs]) (simp add: es_def [symmetric] Let_def)
qed

subsection \<open>Grouping keeps every candidate\<close>

lemma items_of_groups_append:
  "items_of (groups_append g k v) k' = (if k' = k then items_of g k @ [v] else items_of g k')"
  by (induction g k v rule: groups_append.induct) (auto simp: items_of_def)

lemma group_loop_Cons:
  "group_loop isf (p # ps) g =
     (case candidate_of isf p of
        None \<Rightarrow> group_loop isf ps g
      | Some c \<Rightarrow> group_loop isf ps (groups_append g (folder_name p) c))"
  by (auto simp: candidate_of_def split: option.splits)

lemma candidates_in_Cons:
  "candidates_in isf (p # ps) k =
     (case candidate_of isf p of
        None \<Rightarrow> candidates_in isf ps k
      | Some c \<Rightarrow> if folder_name p = k then c # candidates_in isf ps k else candidates_in isf ps k)"
  by (simp add: candidates_in_def List.map_filter_simps split: option.splits)

lemma group_loop_items:
  "items_of (group_loop isf ps g) k = items_of g k @ candidates_in isf ps k"
proof (induction ps arbitrary: g)
  case Nil
  then show ?case by (simp add: candidates_in_def List.map_filter_simps)
next
  case (Cons p ps)
  show ?case
    unfolding group_loop_Cons candidates_in_Cons
    by (simp add: Cons.IH items_of_groups_append split: option.splits)
qed

lemma group_pngs_items: "items_of (group_pngs isf ps) k = candidates_in isf ps k"
  using group_loop_items [of isf ps "[]" k] by (simp add: group_pngs_def items_of_def)



subsection \<open>No size is dropped\<close>






subsection \<open>The example directory, packed\<close>

lemma example_run:
  "create_ico_for_group example_env (str ''icons'') example_items False example_world =
     Inr (example_world
            \<lparr>out_dir := Some [str ''icons.ico'' \<mapsto> example_container],
             console := [SizeMismatch (str ''a_32.png'') 30 32, Generated (str ''icons.ico'') [16, 64, 64]],
             opened := [icon ''a_64.png'', icon ''a_16.png'',
                        icon ''a-64.png'', icon ''a_32.png'']\<rparr>)"
proof -
  have m: "mkdir example_env example_world = Inr (example_world\<lparr>out_dir := Some Map.empty\<rparr>)"
    by (simp add: mkdir_def example_env_def example_world_def)
  have e: "ico_exists example_env (example_world\<lparr>out_dir := Some Map.empty\<rparr>)
             (str ''icons'' @ str ''.ico'') = Inr False"
    by (simp add: example_eval)
  have n: "\<not> False \<or> False" by simp
  have a: "accepted example_env example_items = [(64, [2, 2]), (16, [1]), (64, [3])]"
    by (simp add: example_eval example_items_def)
  have r: "rejections example_env example_items = [SizeMismatch (str ''a_32.png'') 30 32]"
    by (simp add: example_eval example_items_def)
  have s: "sort_entries [(64, [2, 2]), (16, [1]), (64, [3 :: byte])] = [(16, [1]), (64, [2, 2]), (64, [3])]"
    by (simp add: sort_entries_def)
  have b: "build_ico [(64, [2, 2]), (16, [1]), (64, [3])] =
      Inr ([0, 0, 1, 0, 3, 0],
           [16, 16, 0, 0, 0, 0, 32, 0, 1, 0, 0, 0, 54, 0, 0, 0,
            64, 64, 0, 0, 0, 0, 32, 0, 2, 0, 0, 0, 55, 0, 0, 0,
            64, 64, 0, 0, 0, 0, 32, 0, 1, 0, 0, 0, 57, 0, 0, 0],
           [1, 2, 2, 3])"
    unfolding build_ico_def s by (simp add: ico_eval)
  have p: "probed example_items = [icon ''a_64.png'', icon ''a_16.png'',
                        icon ''a-64.png'', icon ''a_32.png'']"
    by (simp add: probed_def example_items_def)
  have wf: "write_fault example_env f = None" for f
    by (simp add: example_env_def)
  show ?thesis
    unfolding create_ico_for_group_reached [OF m e n] a
    by (simp add: b s r p wf after_validation_def write_ico_def print_def
        example_world_def example_container_def str_def)
qed

lemma example_container_read:
  "read_header example_container = [0, 1, 3]"
  "read_dir example_container 0 = [16, 16, 0, 0, 0, 32, 1, 54]"
  "read_dir example_container 1 = [64, 64, 0, 0, 0, 32, 2, 55]"
  "read_dir example_container 2 = [64, 64, 0, 0, 0, 32, 1, 57]"
  "read_payload example_container 1 = [2, 2]"
  "read_payload example_container 2 = [3]"
  by (simp_all add: example_container_def read_eval)

text \<open>
  C3, witness: the example directory, its candidates given in the order 64, 16, 64, 32.
  The container lists the sizes 16, 64, 64.
\<close>

theorem directory_sizes_sorted_witness:
  "(\<exists>w'. create_ico_for_group example_env (str ''icons'') example_items False example_world = Inr w' \<and>
      last (console w') = Generated (str ''icons.ico'') [16, 64, 64] \<and>
      file_content w' (str ''icons.ico'') = Some example_container) \<and>
   sort_entries (accepted example_env example_items) = [(16, [1]), (64, [2, 2]), (64, [3])] \<and>
   sorted (map (read_size example_container) [0..<3])"
proof -
  let ?w = "example_world
            \<lparr>out_dir := Some [str ''icons.ico'' \<mapsto> example_container],
             console := [SizeMismatch (str ''a_32.png'') 30 32, Generated (str ''icons.ico'') [16, 64, 64]],
             opened := [icon ''a_64.png'', icon ''a_16.png'',
                        icon ''a-64.png'', icon ''a_32.png'']\<rparr>"
  have g: "last (console ?w) = Generated (str ''icons.ico'') [16, 64, 64]"
    by simp
  have f: "file_content ?w (str ''icons.ico'') = Some example_container"
    by (simp add: file_content_def)
  have a: "sort_entries (accepted example_env example_items) = [(16, [1]), (64, [2, 2]), (64, [3])]"
    by (simp add: example_eval example_items_def sort_entries_def)
  from directory_sizes_sorted [OF example_run g] obtain bs where
    bs: "file_content ?w (str ''icons.ico'') = Some bs" and
    r: "sorted (map (read_size bs) [0..<length (sort_entries (accepted example_env example_items))])"
    unfolding Let_def by blast
  from bs f have "bs = example_container" by simp
  with r have "sorted (map (read_size example_container) [0..<3])"
    unfolding a by (simp add: numeral_3_eq_3)
  with example_run g f a show ?thesis
    by blast
qed


subsection \<open>The pattern\<close>

lemma decimal_less_10: "decimal c = Some d \<Longrightarrow> d < 10"
  by (auto simp: decimal_def find_Some_iff)

lemma ascii_digits:
  "map decimal (str ''0123456789'') = map Some [0, 1, 2, 3, 4, 5, 6, 7, 8, 9]"
  by (simp add: decimal_def nd_zeros_def str_def ord_def)

lemma newline_not_digit: "\<not> is_digit (ord (CHR 0x0A))"
  by (simp add: is_digit_def decimal_def nd_zeros_def ord_def)

lemma digit_not_newline: "is_digit c \<Longrightarrow> c \<noteq> ord (CHR 0x0A)"
  using newline_not_digit by blast

lemma sep_not_digit: "is_sep c \<Longrightarrow> \<not> is_digit c"
proof -
  have "\<not> is_digit (ord CHR ''_'')" "\<not> is_digit (ord CHR ''@'')" "\<not> is_digit (ord CHR ''-'')"
    by (simp_all add: is_digit_def decimal_def nd_zeros_def ord_def)
  then show "is_sep c \<Longrightarrow> \<not> is_digit c"
    unfolding is_sep_def by blast
qed

lemma sep_not_newline: "is_sep c \<Longrightarrow> c \<noteq> ord (CHR 0x0A)"
  by (auto simp: is_sep_def ord_def)

lemma digits_end_at_end: "at_end e \<Longrightarrow> digits_end e = None"
  using newline_not_digit by (auto simp: at_end_def)

lemma digits_end_Some:
  "digits_end s = Some ds \<Longrightarrow> ds \<noteq> [] \<and> list_all is_digit ds \<and> (\<exists>e. at_end e \<and> s = ds @ e)"
proof (induction s arbitrary: ds)
  case Nil
  then show ?case by simp
next
  case (Cons c r)
  from Cons.prems have c: "is_digit c" by (simp split: if_splits)
  show ?case
  proof (cases "digits_end r")
    case None
    with Cons.prems c have "at_end r" "ds = [c]" by (simp_all split: if_splits)
    with c show ?thesis by auto
  next
    case (Some ds')
    with Cons.prems c have "ds = c # ds'" by simp
    with Cons.IH [OF Some] c show ?thesis by auto
  qed
qed

lemma digits_end_complete:
  "ds \<noteq> [] \<Longrightarrow> list_all is_digit ds \<Longrightarrow> at_end e \<Longrightarrow> digits_end (ds @ e) = Some ds"
proof (induction ds)
  case Nil
  then show ?case by simp
next
  case (Cons c ds)
  show ?case
  proof (cases "ds = []")
    case True
    with Cons.prems show ?thesis by (simp add: digits_end_at_end)
  next
    case False
    with Cons.prems Cons.IH show ?thesis by simp
  qed
qed

lemma tail_match_Some:
  assumes "tail_match s = Some ds"
  shows "ds \<noteq> [] \<and> list_all is_digit ds \<and>
         (\<exists>sep e. at_end e \<and> s = sep @ ds @ e \<and> (sep = [] \<or> (\<exists>c. sep = [c] \<and> is_sep c)))"
proof (cases s)
  case Nil
  with assms show ?thesis by simp
next
  case (Cons c r)
  show ?thesis
  proof (cases "is_sep c \<and> digits_end r \<noteq> None")
    case True
    with assms Cons have d: "digits_end r = Some ds" by auto
    from digits_end_Some [OF d] obtain e where "ds \<noteq> []" "list_all is_digit ds" "at_end e" "r = ds @ e"
      by blast
    with True Cons show ?thesis
      by (intro conjI exI [of _ "[c]"] exI [of _ e]) simp_all
  next
    case False
    with assms Cons have d: "digits_end s = Some ds" by (auto split: if_splits option.splits)
    from digits_end_Some [OF d] obtain e where "ds \<noteq> []" "list_all is_digit ds" "at_end e" "s = ds @ e"
      by blast
    then show ?thesis
      by (intro conjI exI [of _ "[]"] exI [of _ e]) simp_all
  qed
qed

lemma chomp_append_end:
  "at_end e \<Longrightarrow> x \<noteq> [] \<Longrightarrow> last x \<noteq> ord (CHR 0x0A) \<Longrightarrow> chomp (x @ e) = x"
  by (auto simp: at_end_def chomp_def)

lemma chomp_decomp: "\<exists>e. at_end e \<and> s = chomp s @ e"
proof (cases "s \<noteq> [] \<and> last s = ord (CHR 0x0A)")
  case True
  then have "s = butlast s @ [ord (CHR 0x0A)]" by (metis append_butlast_last_id)
  with True show ?thesis by (intro exI [of _ "[ord (CHR 0x0A)]"]) (simp add: chomp_def at_end_def)
next
  case False
  then show ?thesis by (intro exI [of _ "[]"]) (auto simp: chomp_def at_end_def)
qed

lemma chomp_Cons: "r \<noteq> [] \<Longrightarrow> chomp (c # r) = c # chomp r"
  by (simp add: chomp_def)

lemma trailing_digits_all: "list_all is_digit (trailing_digits t)"
  by (simp add: trailing_digits_def list_all_iff) (meson set_takeWhileD)

lemma trailing_digits_append:
  "list_all is_digit ds \<Longrightarrow> x = [] \<or> \<not> is_digit (last x) \<Longrightarrow> trailing_digits (x @ ds) = ds"
proof -
  assume d: "list_all is_digit ds" and x: "x = [] \<or> \<not> is_digit (last x)"
  have "takeWhile is_digit (rev ds @ rev x) = rev ds"
  proof (cases "x = []")
    case True
    with d show ?thesis by (simp add: list_all_iff)
  next
    case False
    with x have "\<not> is_digit (hd (rev x))" by (simp add: hd_rev)
    moreover from False have "rev x = hd (rev x) # tl (rev x)" by simp
    ultimately obtain y ys where y: "rev x = y # ys" "\<not> is_digit y" by metis
    have "takeWhile is_digit (rev ds @ rev x) = rev ds @ takeWhile is_digit (rev x)"
      by (rule takeWhile_append2) (use d in \<open>auto simp: list_all_iff\<close>)
    with y show ?thesis by simp
  qed
  then show ?thesis by (simp add: trailing_digits_def)
qed

lemma trailing_digits_decomp:
  "\<exists>x. t = x @ trailing_digits t \<and> (x = [] \<or> \<not> is_digit (last x))"
proof -
  let ?x = "rev (dropWhile is_digit (rev t))"
  have "rev (takeWhile is_digit (rev t) @ dropWhile is_digit (rev t)) = t"
    by (simp only: takeWhile_dropWhile_id rev_rev_ident)
  then have "?x @ rev (takeWhile is_digit (rev t)) = t"
    by (simp only: rev_append)
  then have 1: "t = ?x @ trailing_digits t"
    by (simp only: trailing_digits_def)
  have 2: "?x = [] \<or> \<not> is_digit (last ?x)"
  proof (cases "dropWhile is_digit (rev t)")
    case Nil
    then show ?thesis by simp
  next
    case (Cons y ys)
    then have "\<not> is_digit y" by (metis hd_dropWhile list.distinct(1) list.sel(1))
    with Cons show ?thesis by (simp add: last_rev)
  qed
  from 1 2 show ?thesis by blast
qed

lemma SIZE_RE_from_sound:
  "SIZE_RE_from g s = Some (g', ds) \<Longrightarrow>
     ds = trailing_digits (chomp s) \<and> ds \<noteq> [] \<and> ord (CHR 0x0A) \<notin> set (chomp s)"
proof (induction s arbitrary: g)
  case Nil
  then show ?case by simp
next
  case (Cons c r)
  show ?case
  proof (cases "tail_match (c # r)")
    case (Some ds')
    with Cons.prems have "ds' = ds" by simp
    with tail_match_Some [OF Some] obtain sep e where
      d: "ds \<noteq> []" "list_all is_digit ds" and e: "at_end e" and s: "c # r = sep @ ds @ e" and
      sep: "sep = [] \<or> (\<exists>c. sep = [c] \<and> is_sep c)"
      by blast
    from d have l: "is_digit (last ds)" by (simp add: list_all_iff)
    then have "last (sep @ ds) \<noteq> ord (CHR 0x0A)" using d(1) by (simp add: digit_not_newline)
    with e d(1) have ch: "chomp (c # r) = sep @ ds"
      unfolding s using chomp_append_end [of e "sep @ ds"] by simp
    have "trailing_digits (sep @ ds) = ds"
      using d(2) sep by (intro trailing_digits_append) (auto dest: sep_not_digit)
    moreover have "ord (CHR 0x0A) \<notin> set (sep @ ds)"
      using sep d(2) by (auto simp: list_all_iff dest: sep_not_newline digit_not_newline)
    ultimately show ?thesis using d(1) ch by simp
  next
    case None
    with Cons.prems have c: "c \<noteq> ord (CHR 0x0A)" and f: "SIZE_RE_from (g @ [c]) r = Some (g', ds)"
      by (simp_all split: if_splits)
    note ih0 = Cons.IH [OF f]
    note ih = ih0 [THEN conjunct1] ih0 [THEN conjunct2, THEN conjunct1]
      ih0 [THEN conjunct2, THEN conjunct2]
    from ih(1,2) have r: "r \<noteq> []" by (auto simp: trailing_digits_def chomp_def)
    then have ch: "chomp (c # r) = c # chomp r" by (rule chomp_Cons)
    from trailing_digits_decomp [of "chomp r"] obtain x where
      x: "chomp r = x @ ds" "x = [] \<or> \<not> is_digit (last x)"
      unfolding ih(1) by blast
    have d: "list_all is_digit ds" unfolding ih(1) by (rule trailing_digits_all)
    have "\<not> (x = [] \<and> is_digit c)"
    proof
      assume a: "x = [] \<and> is_digit c"
      from chomp_decomp [of r] obtain e where e: "at_end e" "r = chomp r @ e" by blast
      with x a have "c # r = (c # ds) @ e" by simp
      moreover have "digits_end ((c # ds) @ e) = Some (c # ds)"
        using a d e(1) by (intro digits_end_complete) simp_all
      ultimately have "digits_end (c # r) = Some (c # ds)" by simp
      moreover from a have "\<not> is_sep c" using sep_not_digit by blast
      ultimately have "tail_match (c # r) = Some (c # ds)" by simp
      with None show False by simp
    qed
    then have "c # x = [] \<or> \<not> is_digit (last (c # x))"
      using x(2) by auto
    with d have "trailing_digits ((c # x) @ ds) = ds"
      by (rule trailing_digits_append)
    with x(1) have "trailing_digits (c # chomp r) = ds" by simp
    with ch ih c show ?thesis by simp
  qed
qed

lemma SIZE_RE_from_complete:
  "ds \<noteq> [] \<Longrightarrow> list_all is_digit ds \<Longrightarrow> at_end e \<Longrightarrow> ord (CHR 0x0A) \<notin> set x \<Longrightarrow>
     SIZE_RE_from g (x @ ds @ e) \<noteq> None"
proof (induction x arbitrary: g)
  case Nil
  then obtain c r where cr: "ds @ e = c # r" "is_digit c"
    by (cases ds) auto
  from Nil have "digits_end (ds @ e) = Some ds" by (intro digits_end_complete)
  moreover from cr have "\<not> is_sep c" using sep_not_digit by blast
  ultimately have "tail_match (c # r) = Some ds" using cr(1) by simp
  then show ?case using cr(1) by simp
next
  case (Cons c x)
  then have "SIZE_RE_from (g @ [c]) (x @ ds @ e) \<noteq> None" by simp
  moreover from Cons.prems(4) have "c \<noteq> ord (CHR 0x0A)" by auto
  ultimately show ?case
    by (cases "tail_match (c # x @ ds @ e)") simp_all
qed

lemma SIZE_RE_match_sound:
  assumes "SIZE_RE_match s = Some (g, ds)"
  shows "ds = trailing_digits (chomp s)" and "ds \<noteq> []" and "ord (CHR 0x0A) \<notin> set (chomp s)"
proof -
  from assms have m: "SIZE_RE_from [] s = Some (g, ds)"
    by (simp only: SIZE_RE_match_def)
  note r = SIZE_RE_from_sound [OF m]
  show "ds = trailing_digits (chomp s)" by (rule r [THEN conjunct1])
  show "ds \<noteq> []" by (rule r [THEN conjunct2, THEN conjunct1])
  show "ord (CHR 0x0A) \<notin> set (chomp s)" by (rule r [THEN conjunct2, THEN conjunct2])
qed

text \<open>What the pattern hands to \<open>int\<close> is a run of decimal digits.\<close>

lemma SIZE_RE_match_digits:
  assumes "SIZE_RE_match s = Some (g, ds)"
  shows "ds \<noteq> [] \<and> list_all is_digit ds"
  using SIZE_RE_match_sound(2) [OF assms] trailing_digits_all [of "chomp s"]
  unfolding SIZE_RE_match_sound(1) [OF assms, symmetric] by simp

lemma SIZE_RE_match_complete:
  assumes n: "trailing_digits (chomp s) \<noteq> []" and l: "ord (CHR 0x0A) \<notin> set (chomp s)"
  shows "\<exists>g. SIZE_RE_match s = Some (g, trailing_digits (chomp s))"
proof -
  define ds where "ds = trailing_digits (chomp s)"
  from trailing_digits_decomp [of "chomp s"] obtain x where x: "chomp s = x @ ds"
    unfolding ds_def by blast
  from chomp_decomp [of s] obtain e where e: "at_end e" and se: "s = chomp s @ e"
    by blast
  have d: "list_all is_digit ds"
    unfolding ds_def by (rule trailing_digits_all)
  have n': "ds \<noteq> []"
    unfolding ds_def by (rule n)
  from l have lx: "ord (CHR 0x0A) \<notin> set x"
    unfolding x by simp
  have c: "SIZE_RE_from [] (x @ ds @ e) \<noteq> None"
    using n' d e lx by (rule SIZE_RE_from_complete)
  have sx: "x @ ds @ e = s"
    using se unfolding x by simp
  have "SIZE_RE_from [] s \<noteq> None"
    using c unfolding sx .
  then obtain m where m: "SIZE_RE_from [] s = Some m"
    by (cases "SIZE_RE_from [] s") simp_all
  obtain g ds' where gd: "m = (g, ds')"
    by (cases m)
  from m have m': "SIZE_RE_match s = Some (g, ds')"
    unfolding gd by (simp only: SIZE_RE_match_def)
  from SIZE_RE_match_sound(1) [OF m'] have "ds' = trailing_digits (chomp s)" .
  with m' show ?thesis
    by (intro exI [of _ g]) (simp only:)
qed

lemma SIZE_RE_match_None:
  "SIZE_RE_match s = None \<longleftrightarrow>
     trailing_digits (chomp s) = [] \<or> ord (CHR 0x0A) \<in> set (chomp s)"
proof
  assume a: "SIZE_RE_match s = None"
  show "trailing_digits (chomp s) = [] \<or> ord (CHR 0x0A) \<in> set (chomp s)"
  proof (rule ccontr)
    assume "\<not> ?thesis"
    then have "trailing_digits (chomp s) \<noteq> []" "ord (CHR 0x0A) \<notin> set (chomp s)"
      by simp_all
    from SIZE_RE_match_complete [OF this] a show False
      by simp
  qed
next
  assume a: "trailing_digits (chomp s) = [] \<or> ord (CHR 0x0A) \<in> set (chomp s)"
  show "SIZE_RE_match s = None"
  proof (cases "SIZE_RE_match s")
    case None
    then show ?thesis .
  next
    case (Some m)
    obtain g ds where gd: "m = (g, ds)"
      by (cases m)
    note r = SIZE_RE_match_sound [OF Some [unfolded gd]]
    from a r show ?thesis
      by simp
  qed
qed

lemma candidate_of_size_tag:
  "candidate_of isf p = (if isf p then map_option (\<lambda>sz. (p, sz)) (size_tag (stem p)) else None)"
proof (cases "SIZE_RE_match (stem p)")
  case None
  then have "trailing_digits (chomp (stem p)) = [] \<or> ord (CHR 0x0A) \<in> set (chomp (stem p))"
    by (simp only: SIZE_RE_match_None)
  then have "size_tag (stem p) = None"
    by (auto simp: size_tag_def py_int_def)
  with None show ?thesis
    by (simp add: candidate_of_def)
next
  case (Some m)
  obtain g ds where m: "m = (g, ds)"
    by (cases m)
  note r = SIZE_RE_match_sound [OF Some [unfolded m]]
  from r(3) have "size_tag (stem p) = py_int ds"
    unfolding r(1) by (simp add: size_tag_def)
  with Some m show ?thesis
    by (simp add: candidate_of_def)
qed

lemma digit_val_nonneg: "0 \<le> digit_val c"
  by (simp add: digit_val_def split: option.splits)

lemma foldl_digits_nonneg:
  "0 \<le> a \<Longrightarrow> 0 \<le> foldl (\<lambda>a c. 10 * a + digit_val c) a ds"
proof (induction ds arbitrary: a)
  case Nil
  then show ?case by simp
next
  case (Cons c ds)
  from Cons.prems have "0 \<le> 10 * a + digit_val c"
    using digit_val_nonneg [of c] by simp
  then show ?case
    by (simp add: Cons.IH)
qed

lemma py_int_nonneg: "py_int ds = Some v \<Longrightarrow> 0 \<le> v"
  using foldl_digits_nonneg [of 0 ds] by (auto simp: py_int_def split: if_splits)

lemma size_tag_Some:
  assumes "size_tag s = Some v"
  shows "0 \<le> v" and "chomp s \<noteq> []" and "is_digit (last (chomp s))"
    and "ord (CHR 0x0A) \<notin> set (chomp s)" and "length (trailing_digits (chomp s)) \<le> 4300"
proof -
  from assms have l: "ord (CHR 0x0A) \<notin> set (chomp s)"
    and p: "py_int (trailing_digits (chomp s)) = Some v"
    by (simp_all add: size_tag_def split: if_splits)
  from p have n: "trailing_digits (chomp s) \<noteq> []"
    and le: "length (trailing_digits (chomp s)) \<le> 4300"
    by (simp_all add: py_int_def split: if_splits)
  from trailing_digits_decomp [of "chomp s"] obtain x where
    x: "chomp s = x @ trailing_digits (chomp s)" by blast
  have "last (x @ trailing_digits (chomp s)) = last (trailing_digits (chomp s))"
    using n by (rule last_appendR)
  then have la: "last (chomp s) = last (trailing_digits (chomp s))"
    using x by simp
  have "last (trailing_digits (chomp s)) \<in> set (trailing_digits (chomp s))"
    using n by (rule last_in_set)
  then have "is_digit (last (trailing_digits (chomp s)))"
    using trailing_digits_all [of "chomp s"] by (simp add: list_all_iff)
  then show "is_digit (last (chomp s))"
    by (simp only: la)
  from n x show "chomp s \<noteq> []"
    by (metis append_is_Nil_conv)
  show "0 \<le> v" using p by (rule py_int_nonneg)
  show "ord (CHR 0x0A) \<notin> set (chomp s)" by (rule l)
  show "length (trailing_digits (chomp s)) \<le> 4300" by (rule le)
qed

lemma size_tag_None:
  "trailing_digits (chomp s) = [] \<Longrightarrow> size_tag s = None"
  by (simp add: size_tag_def py_int_def)

lemma candidate_of_eq_Some:
  "candidate_of isf q = Some (p, v) \<longleftrightarrow> q = p \<and> isf p \<and> size_tag (stem p) = Some v"
  by (auto simp: candidate_of_size_tag)

lemma set_candidates_in:
  "set (candidates_in isf ps k) =
     {c. \<exists>q\<in>set ps. folder_name q = k \<and> candidate_of isf q = Some c}"
proof (induction ps)
  case Nil
  then show ?case by (simp add: candidates_in_def List.map_filter_simps)
next
  case (Cons q ps)
  show ?case
  proof (cases "candidate_of isf q")
    case None
    then show ?thesis
      unfolding candidates_in_Cons by (auto simp: Cons.IH)
  next
    case (Some c)
    then show ?thesis
      unfolding candidates_in_Cons by (auto simp: Cons.IH)
  qed
qed

lemma candidates_in_set:
  "(p, v) \<in> set (candidates_in isf ps k) \<longleftrightarrow>
     p \<in> set ps \<and> folder_name p = k \<and> isf p \<and> size_tag (stem p) = Some v"
  unfolding set_candidates_in by (auto simp: candidate_of_eq_Some)

subsection \<open>The groups\<close>

lemma groups_append_keys:
  "map fst (groups_append g k v) = (if k \<in> set (map fst g) then map fst g else map fst g @ [k])"
  by (induction g k v rule: groups_append.induct) auto

lemma groups_append_distinct:
  "distinct (map fst g) \<Longrightarrow> distinct (map fst (groups_append g k v))"
  by (simp add: groups_append_keys)

lemma groups_append_nonempty:
  "\<forall>e\<in>set g. snd e \<noteq> [] \<Longrightarrow> \<forall>e\<in>set (groups_append g k v). snd e \<noteq> []"
  by (induction g k v rule: groups_append.induct) auto

lemma group_loop_invariant:
  "distinct (map fst g) \<Longrightarrow> \<forall>e\<in>set g. snd e \<noteq> [] \<Longrightarrow>
     distinct (map fst (group_loop isf ps g)) \<and> (\<forall>e\<in>set (group_loop isf ps g). snd e \<noteq> [])"
proof (induction ps arbitrary: g)
  case Nil
  then show ?case by simp
next
  case (Cons p ps)
  show ?case
  proof (cases "candidate_of isf p")
    case None
    then show ?thesis
      unfolding group_loop_Cons using Cons.IH [OF Cons.prems] by simp
  next
    case (Some c)
    have "distinct (map fst (groups_append g (folder_name p) c))"
      using Cons.prems(1) by (rule groups_append_distinct)
    moreover have "\<forall>e\<in>set (groups_append g (folder_name p) c). snd e \<noteq> []"
      using Cons.prems(2) by (rule groups_append_nonempty)
    ultimately show ?thesis
      unfolding group_loop_Cons using Some by (simp add: Cons.IH)
  qed
qed

lemma group_pngs_distinct: "distinct (map fst (group_pngs isf ps))"
  using group_loop_invariant [of "[]" isf ps] by (simp add: group_pngs_def)

lemma group_pngs_nonempty: "(k, vs) \<in> set (group_pngs isf ps) \<Longrightarrow> vs \<noteq> []"
  using group_loop_invariant [of "[]" isf ps] by (auto simp: group_pngs_def)

lemma group_pngs_set:
  "(k, vs) \<in> set (group_pngs isf ps) \<longleftrightarrow> vs \<noteq> [] \<and> vs = candidates_in isf ps k"
proof
  assume a: "(k, vs) \<in> set (group_pngs isf ps)"
  then have "map_of (group_pngs isf ps) k = Some vs"
    using group_pngs_distinct [of isf ps] by simp
  then have "items_of (group_pngs isf ps) k = vs"
    by (simp add: items_of_def)
  then have "vs = candidates_in isf ps k"
    by (simp add: group_pngs_items)
  with group_pngs_nonempty [OF a] show "vs \<noteq> [] \<and> vs = candidates_in isf ps k"
    by simp
next
  assume a: "vs \<noteq> [] \<and> vs = candidates_in isf ps k"
  note n = a [THEN conjunct1]
  have i: "items_of (group_pngs isf ps) k = vs"
    unfolding a [THEN conjunct2] by (rule group_pngs_items)
  show "(k, vs) \<in> set (group_pngs isf ps)"
  proof (cases "map_of (group_pngs isf ps) k")
    case None
    with i n show ?thesis
      by (simp add: items_of_def)
  next
    case (Some vs')
    with i have "vs' = vs"
      by (simp add: items_of_def)
    with Some show ?thesis
      by (simp add: map_of_SomeD)
  qed
qed

subsection \<open>What the parser keeps\<close>

lemmas parse_eval = group_pngs_def candidates_in_def candidate_of_def folder_name_def parent_name_def
  path_name_def stem_def rfind_dot_def SIZE_RE_match_def is_digit_def is_sep_def at_end_def py_int_def
  digit_val_def decimal_def nd_zeros_def size_tag_def chomp_def trailing_digits_def icon_def str_def
  ord_def

text \<open>
  C5, counterexample to the claim as stated: the stem of \<open>x_0.png\<close> matches the pattern,
  its digit run parses to 0, which is not positive, and the parser puts the file into
  the group of its folder as a candidate of size 0.
\<close>

theorem zero_size_kept_counterexample:
  "SIZE_RE_match (stem (icon ''x_0.png'')) = Some (str ''x'', str ''0'') \<and>
   py_int (str ''0'') = Some 0 \<and> \<not> (0 :: int) < 0 \<and>
   group_pngs (\<lambda>p. True) [icon ''x_0.png''] = [(str ''icons'', [(icon ''x_0.png'', 0)])]"
  by (simp add: parse_eval)

text \<open>
  C5, as amended. The groups that the parser returns are the folders with at least one
  candidate, each with its candidates in scan order. A scanned path gives a candidate
  exactly when it is a regular file and its stem declares a size; the candidate
  carries that size. The size that a stem declares is what \<open>int\<close> makes of the digits
  that the pattern matches, if the pattern matches and \<open>int\<close> accepts them. The pattern
  matches exactly the stems that, less one final line feed, hold no line feed and end
  in a decimal digit, and what it hands to \<open>int\<close> is the whole run of digits at that
  end; so a stem declares a size exactly when, less one final line feed, it holds no
  line feed and ends in a run of at least one and at most 4300 decimal digits. A
  declared size is never negative but may be 0. A file that is not regular or whose
  stem declares no size, as every stem without a digit at its end, is in no group.
\<close>

theorem parser_candidates:
  "((k, vs) \<in> set (group_pngs isf ps) \<longleftrightarrow> vs \<noteq> [] \<and> vs = candidates_in isf ps k) \<and>
   ((p, v) \<in> set (candidates_in isf ps k) \<longleftrightarrow>
      p \<in> set ps \<and> folder_name p = k \<and> isf p \<and> size_tag (stem p) = Some v) \<and>
   size_tag s = (case SIZE_RE_match s of None \<Rightarrow> None | Some (g, ds) \<Rightarrow> py_int ds) \<and>
   ((\<exists>g. SIZE_RE_match s = Some (g, ds)) \<longleftrightarrow>
      ds = trailing_digits (chomp s) \<and> ds \<noteq> [] \<and> ord (CHR 0x0A) \<notin> set (chomp s)) \<and>
   (size_tag t = Some n \<longrightarrow>
      0 \<le> n \<and> chomp t \<noteq> [] \<and> is_digit (last (chomp t)) \<and> ord (CHR 0x0A) \<notin> set (chomp t)) \<and>
   (trailing_digits (chomp u) = [] \<longrightarrow> size_tag u = None) \<and>
   ((\<not> isf q \<or> size_tag (stem q) = None) \<and> (k', vs') \<in> set (group_pngs isf ps) \<longrightarrow>
      q \<notin> fst ` set vs') \<and>
   (size_tag s \<noteq> None \<longleftrightarrow>
      trailing_digits (chomp s) \<noteq> [] \<and> ord (CHR 0x0A) \<notin> set (chomp s) \<and>
      length (trailing_digits (chomp s)) \<le> 4300)"
proof -
  have 1: "(k, vs) \<in> set (group_pngs isf ps) \<longleftrightarrow> vs \<noteq> [] \<and> vs = candidates_in isf ps k"
    by (rule group_pngs_set)
  have 2: "(p, v) \<in> set (candidates_in isf ps k) \<longleftrightarrow>
      p \<in> set ps \<and> folder_name p = k \<and> isf p \<and> size_tag (stem p) = Some v"
    by (rule candidates_in_set)
  have 3: "size_tag s = (case SIZE_RE_match s of None \<Rightarrow> None | Some (g, ds) \<Rightarrow> py_int ds)"
  proof (cases "SIZE_RE_match s")
    case None
    then have "trailing_digits (chomp s) = [] \<or> ord (CHR 0x0A) \<in> set (chomp s)"
      by (simp only: SIZE_RE_match_None)
    then have "size_tag s = None"
      by (auto simp: size_tag_def py_int_def)
    with None show ?thesis by simp
  next
    case (Some m)
    obtain g ds where m: "m = (g, ds)"
      by (cases m)
    note r = SIZE_RE_match_sound [OF Some [unfolded m]]
    from r(3) have "size_tag s = py_int ds"
      unfolding r(1) by (simp add: size_tag_def)
    with Some m show ?thesis by simp
  qed
  have 4: "(\<exists>g. SIZE_RE_match s = Some (g, ds)) \<longleftrightarrow>
      ds = trailing_digits (chomp s) \<and> ds \<noteq> [] \<and> ord (CHR 0x0A) \<notin> set (chomp s)"
  proof
    assume "\<exists>g. SIZE_RE_match s = Some (g, ds)"
    then obtain g where "SIZE_RE_match s = Some (g, ds)" ..
    from SIZE_RE_match_sound [OF this]
    show "ds = trailing_digits (chomp s) \<and> ds \<noteq> [] \<and> ord (CHR 0x0A) \<notin> set (chomp s)"
      by (intro conjI)
  next
    assume a: "ds = trailing_digits (chomp s) \<and> ds \<noteq> [] \<and> ord (CHR 0x0A) \<notin> set (chomp s)"
    note e = a [THEN conjunct1]
    have "trailing_digits (chomp s) \<noteq> []"
      using a [THEN conjunct2, THEN conjunct1] unfolding e .
    from SIZE_RE_match_complete [OF this a [THEN conjunct2, THEN conjunct2]]
    show "\<exists>g. SIZE_RE_match s = Some (g, ds)"
      unfolding e .
  qed
  have 5: "size_tag t = Some n \<longrightarrow>
      0 \<le> n \<and> chomp t \<noteq> [] \<and> is_digit (last (chomp t)) \<and> ord (CHR 0x0A) \<notin> set (chomp t)"
  proof
    assume a: "size_tag t = Some n"
    from size_tag_Some(1-4) [OF a]
    show "0 \<le> n \<and> chomp t \<noteq> [] \<and> is_digit (last (chomp t)) \<and> ord (CHR 0x0A) \<notin> set (chomp t)"
      by (intro conjI)
  qed
  have 6: "trailing_digits (chomp u) = [] \<longrightarrow> size_tag u = None"
    by (rule impI) (rule size_tag_None)
  have 7: "(\<not> isf q \<or> size_tag (stem q) = None) \<and> (k', vs') \<in> set (group_pngs isf ps) \<longrightarrow>
      q \<notin> fst ` set vs'"
  proof (intro impI notI)
    assume a: "(\<not> isf q \<or> size_tag (stem q) = None) \<and> (k', vs') \<in> set (group_pngs isf ps)"
      and b: "q \<in> fst ` set vs'"
    from a have "vs' = candidates_in isf ps k'"
      by (simp add: group_pngs_set)
    with b obtain m where "(q, m) \<in> set (candidates_in isf ps k')"
      by auto
    then have "isf q \<and> size_tag (stem q) = Some m"
      by (simp add: candidates_in_set)
    with a show False
      by auto
  qed
  have 8: "size_tag s \<noteq> None \<longleftrightarrow>
      trailing_digits (chomp s) \<noteq> [] \<and> ord (CHR 0x0A) \<notin> set (chomp s) \<and>
      length (trailing_digits (chomp s)) \<le> 4300"
    using trailing_digits_all [of "chomp s"] by (simp add: size_tag_def py_int_def)
  from 1 2 3 4 5 6 7 8 show ?thesis
    by (intro conjI)
qed

text \<open>
  C5, witness: a scan of the folder \<open>icons\<close> with \<open>a_16.png\<close>, \<open>readme.png\<close> and
  \<open>x_0.png\<close>. The group of the folder holds the first and the last, with the sizes 16
  and 0; \<open>readme\<close> ends in no digit and its file is in no group.
\<close>

theorem parser_candidates_witness:
  "(str ''icons'', [(icon ''a_16.png'', 16), (icon ''x_0.png'', 0)]) \<in>
     set (group_pngs (\<lambda>p. True) [icon ''a_16.png'', icon ''readme.png'', icon ''x_0.png'']) \<and>
   (icon ''x_0.png'', 0) \<in>
     set (candidates_in (\<lambda>p. True) [icon ''a_16.png'', icon ''readme.png'', icon ''x_0.png''] (str ''icons'')) \<and>
   (\<exists>g. SIZE_RE_match (str ''a_16'') = Some (g, str ''16'')) \<and>
   size_tag (str ''x_0'') = Some 0 \<and> is_digit (last (chomp (str ''x_0''))) \<and>
   trailing_digits (chomp (str ''readme'')) = [] \<and> size_tag (str ''readme'') = None \<and>
   size_tag (stem (icon ''readme.png'')) = None \<and>
   icon ''readme.png'' \<notin> fst ` set [(icon ''a_16.png'', 16), (icon ''x_0.png'', 0 :: int)]"
proof -
  let ?ps = "[icon ''a_16.png'', icon ''readme.png'', icon ''x_0.png'']"
  let ?vs = "[(icon ''a_16.png'', 16), (icon ''x_0.png'', 0)] :: candidate list"
  note t = parser_candidates [of "str ''icons''" ?vs "\<lambda>p. True" ?ps "icon ''x_0.png''" 0
      "str ''a_16''" "str ''16''" "str ''x_0''" 0 "str ''readme''" "icon ''readme.png''"
      "str ''icons''" ?vs]
  have c: "candidates_in (\<lambda>p. True) ?ps (str ''icons'') = ?vs"
    by (simp add: parse_eval)
  have m: "icon ''x_0.png'' \<in> set ?ps" "folder_name (icon ''x_0.png'') = str ''icons''"
    "size_tag (stem (icon ''x_0.png'')) = Some 0"
    by (simp_all add: parse_eval)
  have d: "str ''16'' = trailing_digits (chomp (str ''a_16''))" "str ''16'' \<noteq> []"
    "ord (CHR 0x0A) \<notin> set (chomp (str ''a_16''))"
    by (simp_all add: parse_eval)
  have z: "size_tag (str ''x_0'') = Some 0"
    by (simp add: parse_eval)
  have r: "trailing_digits (chomp (str ''readme'')) = []"
    "size_tag (stem (icon ''readme.png'')) = None"
    by (simp_all add: parse_eval)
  have 1: "(str ''icons'', ?vs) \<in> set (group_pngs (\<lambda>p. True) ?ps)"
    using t [THEN conjunct1] c by simp
  have 2: "(icon ''x_0.png'', 0) \<in> set (candidates_in (\<lambda>p. True) ?ps (str ''icons''))"
    using t [THEN conjunct2, THEN conjunct1] m by simp
  have 4: "\<exists>g. SIZE_RE_match (str ''a_16'') = Some (g, str ''16'')"
    using t [THEN conjunct2, THEN conjunct2, THEN conjunct2, THEN conjunct1] d by simp
  have 5: "is_digit (last (chomp (str ''x_0'')))"
    using t [THEN conjunct2, THEN conjunct2, THEN conjunct2, THEN conjunct2, THEN conjunct1] z
    by simp
  have 6: "size_tag (str ''readme'') = None"
    using t [THEN conjunct2, THEN conjunct2, THEN conjunct2, THEN conjunct2, THEN conjunct2,
        THEN conjunct1] r(1)
    by simp
  have 7: "icon ''readme.png'' \<notin> fst ` set ?vs"
    using t [THEN conjunct2, THEN conjunct2, THEN conjunct2, THEN conjunct2, THEN conjunct2,
        THEN conjunct2, THEN conjunct1] r(2) 1
    by simp
  from 1 2 4 z 5 r(1) 6 r(2) 7 show ?thesis
    by (intro conjI)
qed

subsection \<open>Candidates of size 0\<close>




end
